theory Spec2Isabelle
  imports Complex_Main "HOL-Library.Multiset"
begin

section \<open>A* search with history-dependent edge costs (networkx\_astar\_path/astar.py)\<close>

text \<open>
  The development embeds \<^verbatim>\<open>astar.py\<close>: the weight resolver \<^verbatim>\<open>_weight_function\<close>,
  the search \<^verbatim>\<open>astar_path\<close> and the derived \<^verbatim>\<open>astar_path_length\<close>.

  Modelling decisions.
  \<^item> Nodes are values of an arbitrary type \<open>'n\<close>; networkx refuses \<^verbatim>\<open>None\<close> as a node, so the
    parent stored in a frontier entry and in the explored table is an \<open>'n option\<close>.
  \<^item> Numbers are exact reals. Python's rounding of floats is not modelled.
  \<^item> Exceptions are values of \<open>error\<close>; a function that may raise returns \<open>error + 'a\<close>.
    The two callbacks (the heuristic and a callable weight) may raise as well.
  \<^item> The two \<^verbatim>\<open>while\<close> loops may run forever, so they are partial functions into
    \<open>option\<close>: \<open>None\<close> is a call that never returns.
  \<^item> The graph is the adjacency dictionary of networkx (\<^verbatim>\<open>G._adj\<close>), kept as an
    association list in iteration order, together with the answer of
    \<^verbatim>\<open>G.is_multigraph()\<close>.
  \<^item> The binary heap of \<^verbatim>\<open>heapq\<close> is kept as the list of its items; \<^verbatim>\<open>heappop\<close> removes
    the item that is least in the order on (priority, sequence number).
\<close>

subsection \<open>Errors, graphs, callbacks\<close>

datatype error =
  NodeNotFound | NetworkXNoPath | NotImplementedError | KeyError | TypeError | ZeroDivisionError

type_synonym attrs = "(string \<times> real) list"

type_synonym 'n edge = "'n \<times> 'n"

record 'n graph =
  adj :: "('n \<times> ('n \<times> attrs) list) list"
  multigraph :: bool

text \<open>\<^verbatim>\<open>n in graph\<close>\<close>

definition has_node :: "'n graph \<Rightarrow> 'n \<Rightarrow> bool" where
  "has_node G n = (map_of (adj G) n \<noteq> None)"

text \<open>\<^verbatim>\<open>graph[n].items()\<close>: a missing node is a \<^verbatim>\<open>KeyError\<close>.\<close>

definition neighbors :: "'n graph \<Rightarrow> 'n \<Rightarrow> error + ('n \<times> attrs) list" where
  "neighbors G n = (case map_of (adj G) n of None \<Rightarrow> Inl KeyError | Some nbrs \<Rightarrow> Inr nbrs)"

text \<open>\<^verbatim>\<open>graph.get_edge_data(u, v)\<close>: the attribute dictionary of the edge, \<^verbatim>\<open>None\<close> when there
  is no such edge.\<close>

definition get_edge_data :: "'n graph \<Rightarrow> 'n \<Rightarrow> 'n \<Rightarrow> attrs option" where
  "get_edge_data G u v = (case map_of (adj G) u of None \<Rightarrow> None | Some nbrs \<Rightarrow> map_of nbrs v)"

type_synonym 'n weight_fn = "'n graph \<Rightarrow> 'n edge option \<Rightarrow> 'n edge \<Rightarrow> error + real"

type_synonym 'n heuristic_fn = "'n \<Rightarrow> 'n \<Rightarrow> error + real"

datatype 'n weight_spec = AttrName string | Callable "'n weight_fn"

subsection \<open>The weight resolver\<close>

text \<open>\<^verbatim>\<open>G.get_edge_data(*e)[name]\<close>, and the function returned for an attribute name:
  \<^verbatim>\<open>lambda _G, prev_edge, cur_edge: _G.get_edge_data(*cur_edge)[weight_name]\<close>.
  Subscripting \<^verbatim>\<open>None\<close> is a \<^verbatim>\<open>TypeError\<close>, a missing attribute a \<^verbatim>\<open>KeyError\<close>.\<close>

definition edge_attr :: "'n graph \<Rightarrow> 'n edge \<Rightarrow> string \<Rightarrow> error + real" where
  "edge_attr G e name =
     (case get_edge_data G (fst e) (snd e) of
        None \<Rightarrow> Inl TypeError
      | Some d \<Rightarrow> (case map_of d name of None \<Rightarrow> Inl KeyError | Some x \<Rightarrow> Inr x))"

definition attr_weight :: "string \<Rightarrow> 'n weight_fn" where
  "attr_weight weight_name = (\<lambda>G prev_edge cur_edge. edge_attr G cur_edge weight_name)"

definition weight_function :: "'n graph \<Rightarrow> 'n weight_spec \<Rightarrow> error + 'n weight_fn" where
  "weight_function G weight =
     (case weight of
        Callable f \<Rightarrow> Inr f
      | AttrName weight_name \<Rightarrow>
          if multigraph G then Inl NotImplementedError else Inr (attr_weight weight_name))"

definition default_heuristic :: "'n heuristic_fn" where
  "default_heuristic u v = Inr 0"

subsection \<open>The frontier\<close>

text \<open>A queue item
  \<^verbatim>\<open>(priority, next(c), node, cost to reach, parent, explored path)\<close>.\<close>

record 'n entry =
  e_priority :: real
  e_seq :: nat
  e_node :: 'n
  e_dist :: real
  e_parent :: "'n option"
  e_path :: "'n list"

text \<open>The order Python's tuple comparison decides on the first two components.\<close>

definition entry_less :: "'n entry \<Rightarrow> 'n entry \<Rightarrow> bool" where
  "entry_less a b =
     (e_priority a < e_priority b \<or> (e_priority a = e_priority b \<and> e_seq a < e_seq b))"

fun heap_min :: "'n entry \<Rightarrow> 'n entry list \<Rightarrow> 'n entry" where
  "heap_min m [] = m"
| "heap_min m (e # es) = heap_min (if entry_less e m then e else m) es"

definition heappush :: "'n entry list \<Rightarrow> 'n entry \<Rightarrow> 'n entry list" where
  "heappush q e = q @ [e]"

definition heappop :: "'n entry list \<Rightarrow> ('n entry \<times> 'n entry list) option" where
  "heappop q = (case q of [] \<Rightarrow> None | e # es \<Rightarrow> (let m = heap_min e es in Some (m, remove1 m q)))"

subsection \<open>The search state and one iteration of the main loop\<close>

record 'n state =
  queue :: "'n entry list"
  counter :: nat
  enqueued :: "'n \<rightharpoonup> real \<times> real"
  explored :: "'n \<rightharpoonup> 'n option"

definition init_state :: "'n \<Rightarrow> 'n state" where
  "init_state source =
     \<lparr>queue = [\<lparr>e_priority = 0, e_seq = 0, e_node = source, e_dist = 0, e_parent = None,
                e_path = [source]\<rparr>],
      counter = 1, enqueued = Map.empty, explored = Map.empty\<rparr>"

text \<open>\<^verbatim>\<open>(explored_path[-2], curnode)\<close>, or \<^verbatim>\<open>None\<close> on \<^verbatim>\<open>IndexError\<close>.\<close>

definition prev_edge_of :: "'n list \<Rightarrow> 'n \<Rightarrow> 'n edge option" where
  "prev_edge_of explored_path curnode =
     (if 2 \<le> length explored_path
      then Some (explored_path ! (length explored_path - 2), curnode) else None)"

text \<open>\<^verbatim>\<open>enqueued[neighbor] = ncost, h\<close> and the \<^verbatim>\<open>push\<close> that follows it.\<close>

definition push_neighbor :: "'n entry \<Rightarrow> 'n \<Rightarrow> real \<Rightarrow> real \<Rightarrow> 'n state \<Rightarrow> 'n state" where
  "push_neighbor cur neighbor ncost h st =
     st\<lparr>enqueued := (enqueued st)(neighbor \<mapsto> (ncost, h)),
        queue := heappush (queue st)
          \<lparr>e_priority = ncost + h, e_seq = counter st, e_node = neighbor, e_dist = ncost,
           e_parent = Some (e_node cur), e_path = e_path cur @ [neighbor]\<rparr>,
        counter := Suc (counter st)\<rparr>"

text \<open>The body of \<^verbatim>\<open>for neighbor, w in graph[curnode].items()\<close>.\<close>

definition relax ::
  "'n graph \<Rightarrow> 'n \<Rightarrow> 'n heuristic_fn \<Rightarrow> 'n weight_fn \<Rightarrow> 'n entry \<Rightarrow> 'n \<Rightarrow> 'n state
     \<Rightarrow> error + 'n state" where
  "relax G target heuristic weight cur neighbor st =
     (case weight G (prev_edge_of (e_path cur) (e_node cur)) (e_node cur, neighbor) of
        Inl err \<Rightarrow> Inl err
      | Inr c \<Rightarrow>
          (let ncost = e_dist cur + c in
           case enqueued st neighbor of
             Some (qcost, h) \<Rightarrow>
               if qcost \<le> ncost then Inr st else Inr (push_neighbor cur neighbor ncost h st)
           | None \<Rightarrow>
               (case heuristic neighbor target of
                  Inl err \<Rightarrow> Inl err
                | Inr h \<Rightarrow> Inr (push_neighbor cur neighbor ncost h st))))"

fun for_each :: "('a \<Rightarrow> 's \<Rightarrow> error + 's) \<Rightarrow> 'a list \<Rightarrow> 's \<Rightarrow> error + 's" where
  "for_each f [] st = Inr st"
| "for_each f (x # xs) st = (case f x st of Inl err \<Rightarrow> Inl err | Inr st' \<Rightarrow> for_each f xs st')"

text \<open>\<^verbatim>\<open>explored[curnode] = parent\<close> and the loop over the neighbours.\<close>

definition visit ::
  "'n graph \<Rightarrow> 'n \<Rightarrow> 'n heuristic_fn \<Rightarrow> 'n weight_fn \<Rightarrow> 'n entry \<Rightarrow> 'n state
     \<Rightarrow> error + 'n state" where
  "visit G target heuristic weight cur st =
     (case neighbors G (e_node cur) of
        Inl err \<Rightarrow> Inl err
      | Inr nbrs \<Rightarrow>
          for_each (relax G target heuristic weight cur) (map fst nbrs)
            (st\<lparr>explored := (explored st)(e_node cur \<mapsto> e_parent cur)\<rparr>))"

datatype 'n step_result =
  Exhausted | Found "'n entry" "'n state" | Failed error | Continue "'n state"

text \<open>The body of the main loop after the \<^verbatim>\<open>pop\<close>.\<close>

definition loop_body ::
  "'n graph \<Rightarrow> 'n \<Rightarrow> 'n heuristic_fn \<Rightarrow> 'n weight_fn \<Rightarrow> 'n entry \<Rightarrow> 'n state
     \<Rightarrow> 'n step_result" where
  "loop_body G target heuristic weight cur st1 =
     (if e_node cur = target then Found cur st1
      else
        (case explored st1 (e_node cur) of
           Some None \<Rightarrow> Continue st1
         | Some (Some p) \<Rightarrow>
             (case enqueued st1 (e_node cur) of
                None \<Rightarrow> Failed KeyError
              | Some (qcost, h) \<Rightarrow>
                  if qcost < e_dist cur then Continue st1
                  else (case visit G target heuristic weight cur st1 of
                          Inl err \<Rightarrow> Failed err | Inr st2 \<Rightarrow> Continue st2))
         | None \<Rightarrow>
             (case visit G target heuristic weight cur st1 of
                Inl err \<Rightarrow> Failed err | Inr st2 \<Rightarrow> Continue st2)))"

text \<open>One test of \<^verbatim>\<open>while queue\<close> and one iteration.\<close>

definition astar_step ::
  "'n graph \<Rightarrow> 'n \<Rightarrow> 'n heuristic_fn \<Rightarrow> 'n weight_fn \<Rightarrow> 'n state \<Rightarrow> 'n step_result" where
  "astar_step G target heuristic weight st =
     (case heappop (queue st) of
        None \<Rightarrow> Exhausted
      | Some (cur, q) \<Rightarrow> loop_body G target heuristic weight cur (st\<lparr>queue := q\<rparr>))"

subsection \<open>The two loops and the entry points\<close>

text \<open>The reconstruction
  \<^verbatim>\<open>while node is not None: path.append(node); node = explored[node]\<close>
  followed by \<^verbatim>\<open>path.reverse()\<close>.\<close>

partial_function (option) walk_back ::
  "('n \<rightharpoonup> 'n option) \<Rightarrow> 'n option \<Rightarrow> 'n list \<Rightarrow> (error + 'n list) option" where
  "walk_back ex nd path =
     (case nd of
        None \<Rightarrow> Some (Inr (rev path))
      | Some n \<Rightarrow>
          (case ex n of
             None \<Rightarrow> Some (Inl KeyError)
           | Some p \<Rightarrow> walk_back ex p (path @ [n])))"

partial_function (option) astar_loop ::
  "'n graph \<Rightarrow> 'n \<Rightarrow> 'n heuristic_fn \<Rightarrow> 'n weight_fn \<Rightarrow> 'n state \<Rightarrow> (error + 'n list) option"
  where
  "astar_loop G target heuristic weight st =
     (case astar_step G target heuristic weight st of
        Exhausted \<Rightarrow> Some (Inl NetworkXNoPath)
      | Failed err \<Rightarrow> Some (Inl err)
      | Found cur st1 \<Rightarrow> walk_back (explored st1) (e_parent cur) [e_node cur]
      | Continue st1 \<Rightarrow> astar_loop G target heuristic weight st1)"

definition astar_path ::
  "'n graph \<Rightarrow> 'n \<Rightarrow> 'n \<Rightarrow> 'n heuristic_fn option \<Rightarrow> 'n weight_spec \<Rightarrow> (error + 'n list) option"
  where
  "astar_path G source target heuristic weight =
     (if \<not> has_node G source \<or> \<not> has_node G target then Some (Inl NodeNotFound)
      else
        (let h = (case heuristic of None \<Rightarrow> default_heuristic | Some f \<Rightarrow> f) in
         case weight_function G weight of
           Inl err \<Rightarrow> Some (Inl err)
         | Inr w \<Rightarrow> astar_loop G target h w (init_state source)))"

text \<open>\<^verbatim>\<open>sum(weight(graph, u, v) for u, v in zip(path_edges[:-1], path_edges[1:]))\<close>: the terms
  are evaluated in order and the first exception ends the sum.\<close>

fun sum_weights ::
  "'n weight_fn \<Rightarrow> 'n graph \<Rightarrow> ('n edge option \<times> 'n edge option) list \<Rightarrow> real \<Rightarrow> error + real"
  where
  "sum_weights weight G [] acc = Inr acc"
| "sum_weights weight G ((u, v) # rest) acc =
     (case v of
        None \<Rightarrow> Inl TypeError
      | Some cur_edge \<Rightarrow>
          (case weight G u cur_edge of
             Inl err \<Rightarrow> Inl err
           | Inr c \<Rightarrow> sum_weights weight G rest (acc + c)))"

text \<open>\<^verbatim>\<open>list(chain([None], list(zip(path[:-1], path[1:]))))\<close>\<close>

definition path_edges :: "'n list \<Rightarrow> 'n edge option list" where
  "path_edges path = None # map Some (zip (butlast path) (tl path))"

definition astar_path_length ::
  "'n graph \<Rightarrow> 'n \<Rightarrow> 'n \<Rightarrow> 'n heuristic_fn option \<Rightarrow> 'n weight_spec \<Rightarrow> (error + real) option"
  where
  "astar_path_length G source target heuristic weight =
     (if \<not> has_node G source \<or> \<not> has_node G target then Some (Inl NodeNotFound)
      else
        (case weight_function G weight of
           Inl err \<Rightarrow> Some (Inl err)
         | Inr w \<Rightarrow>
             (case astar_path G source target heuristic (Callable w) of
                None \<Rightarrow> None
              | Some (Inl err) \<Rightarrow> Some (Inl err)
              | Some (Inr path) \<Rightarrow>
                  Some (sum_weights w G
                          (zip (butlast (path_edges path)) (tl (path_edges path))) 0))))"

subsection \<open>The graph and the cost function of the test suite\<close>

text \<open>The fixture \<^verbatim>\<open>graph\<close> of \<^verbatim>\<open>tests/test_astar_path.py\<close>, its nodes and neighbours in
  insertion order.\<close>

definition test_graph :: "string graph" where
  "test_graph =
     \<lparr>adj =
        [(''S'', [(''A1'', [(''weight'', -2)]), (''A2'', [(''weight'', 1)])]),
         (''A1'', [(''T'', [(''weight'', 7)])]),
         (''T'', []),
         (''A2'', [(''B2'', [(''weight'', 1)])]),
         (''B2'', [(''C2'', [(''weight'', 1)])]),
         (''C2'', [(''T'', [(''weight'', 1)])])],
      multigraph = False\<rparr>"

text \<open>\<^verbatim>\<open>dependent_weight\<close> of the test suite; a division by zero raises.\<close>

definition dependent_weight :: "'n weight_fn" where
  "dependent_weight G prev_edge cur_edge =
     (case prev_edge of
        None \<Rightarrow> edge_attr G cur_edge ''weight''
      | Some pe \<Rightarrow>
          (case edge_attr G pe ''weight'' of
             Inl err \<Rightarrow> Inl err
           | Inr prev_weight \<Rightarrow>
               (case edge_attr G cur_edge ''weight'' of
                  Inl err \<Rightarrow> Inl err
                | Inr cur_weight \<Rightarrow>
                    if prev_weight = 0 then Inl ZeroDivisionError
                    else Inr (cur_weight / prev_weight))))"

subsection \<open>Notions used to state the properties\<close>

text \<open>\<^verbatim>\<open>v in graph[u]\<close>: there is an edge from \<open>u\<close> to \<open>v\<close>.\<close>

definition has_edge :: "'n graph \<Rightarrow> 'n \<Rightarrow> 'n \<Rightarrow> bool" where
  "has_edge G u v =
     (case map_of (adj G) u of None \<Rightarrow> False | Some nbrs \<Rightarrow> v \<in> set (map fst nbrs))"

text \<open>Consecutive nodes of the list are joined by an edge.\<close>

fun valid_walk :: "'n graph \<Rightarrow> 'n list \<Rightarrow> bool" where
  "valid_walk G (u # v # rest) = (has_edge G u v \<and> valid_walk G (v # rest))"
| "valid_walk G path = True"

definition reachable :: "'n graph \<Rightarrow> 'n \<Rightarrow> 'n \<Rightarrow> bool" where
  "reachable G s t = ((s, t) \<in> {(u, v). has_edge G u v}\<^sup>*)"

text \<open>The cost of a node sequence: the cost function applied to its edges in order, the
  first with no previous edge, each later one with the edge before it.\<close>

fun walk_cost ::
  "'n weight_fn \<Rightarrow> 'n graph \<Rightarrow> 'n edge option \<Rightarrow> 'n list \<Rightarrow> real \<Rightarrow> error + real" where
  "walk_cost weight G prev (u # v # rest) acc =
     (case weight G prev (u, v) of
        Inl err \<Rightarrow> Inl err
      | Inr c \<Rightarrow> walk_cost weight G (Some (u, v)) (v # rest) (acc + c))"
| "walk_cost weight G prev path acc = Inr acc"

text \<open>The state at the head of the main loop after \<open>k\<close> more iterations, if the loop
  runs that long.\<close>

fun steps ::
  "'n graph \<Rightarrow> 'n \<Rightarrow> 'n heuristic_fn \<Rightarrow> 'n weight_fn \<Rightarrow> nat \<Rightarrow> 'n state \<Rightarrow> 'n state option"
  where
  "steps G target heuristic weight 0 st = Some st"
| "steps G target heuristic weight (Suc k) st =
     (case astar_step G target heuristic weight st of
        Continue st1 \<Rightarrow> steps G target heuristic weight k st1
      | _ \<Rightarrow> None)"

subsection \<open>Further inputs and side conditions\<close>

text \<open>A multigraph on two nodes. The search never looks at the data stored with an
  edge, so the per-neighbour dictionaries are kept in the same shape as for a simple
  graph.\<close>

definition multigraph_example :: "string graph" where
  "multigraph_example =
     \<lparr>adj = [(''a'', [(''b'', [(''weight'', 1)])]), (''b'', [(''a'', [(''weight'', 1)])])],
      multigraph = True\<rparr>"

text \<open>Neither callback raises the given exception (an exception raised by a callback
  passes through the search unchanged).\<close>

definition never_raises :: "error \<Rightarrow> 'n graph \<Rightarrow> 'n \<Rightarrow> 'n heuristic_fn option \<Rightarrow> 'n weight_spec \<Rightarrow> bool" where
  "never_raises err G t heuristic weight =
     ((\<forall>f. weight = Callable f \<longrightarrow> (\<forall>p c. f G p c \<noteq> Inl err))
      \<and> (\<forall>f. heuristic = Some f \<longrightarrow> (\<forall>u. f u t \<noteq> Inl err)))"

text \<open>A graph with a negative edge on which a node is finalized twice:
  S\<rightarrow>A (1), S\<rightarrow>B (2), A\<rightarrow>T (10), B\<rightarrow>A (-5).\<close>

definition detour_graph :: "string graph" where
  "detour_graph =
     \<lparr>adj =
        [(''S'', [(''A'', [(''weight'', 1)]), (''B'', [(''weight'', 2)])]),
         (''A'', [(''T'', [(''weight'', 10)])]),
         (''B'', [(''A'', [(''weight'', -5)])]),
         (''T'', [])],
      multigraph = False\<rparr>"

text \<open>The sequence numbers of the queued items are pairwise different and below the
  counter.\<close>

definition seq_inv :: "'n state \<Rightarrow> bool" where
  "seq_inv st =
     (distinct (map e_seq (queue st)) \<and> (\<forall>e \<in> set (queue st). e_seq e < counter st))"

text \<open>Two states that differ at most in the arrangement of the queue.\<close>

definition same_frontier :: "'n state \<Rightarrow> 'n state \<Rightarrow> bool" where
  "same_frontier st st' =
     (mset (queue st') = mset (queue st) \<and> counter st' = counter st
      \<and> enqueued st' = enqueued st \<and> explored st' = explored st)"

subsection \<open>The classic A* search with a cost per edge\<close>

text \<open>
  The reference for the comparison with an edge-only search: the A* search of networkx
  (\<^verbatim>\<open>networkx.algorithms.shortest_paths.astar.astar_path\<close>), against which the test
  suite compares. Its queue items are \<^verbatim>\<open>(priority, next(c), node, cost to reach, parent)\<close>
  and the cost of an edge depends on that edge alone. It is written here as a separate
  program over its own state.
\<close>

type_synonym 'n classic_weight_fn = "'n graph \<Rightarrow> 'n edge \<Rightarrow> error + real"

type_synonym 'n classic_item = "real \<times> nat \<times> 'n \<times> real \<times> 'n option"

record 'n classic_state =
  c_queue :: "'n classic_item list"
  c_counter :: nat
  c_enqueued :: "'n \<rightharpoonup> real \<times> real"
  c_explored :: "'n \<rightharpoonup> 'n option"

definition classic_less :: "'n classic_item \<Rightarrow> 'n classic_item \<Rightarrow> bool" where
  "classic_less a b = (case (a, b) of ((pa, sa, _), (pb, sb, _)) \<Rightarrow> pa < pb \<or> (pa = pb \<and> sa < sb))"

fun classic_min :: "'n classic_item \<Rightarrow> 'n classic_item list \<Rightarrow> 'n classic_item" where
  "classic_min m [] = m"
| "classic_min m (x # xs) = classic_min (if classic_less x m then x else m) xs"

definition classic_pop :: "'n classic_item list \<Rightarrow> ('n classic_item \<times> 'n classic_item list) option"
  where
  "classic_pop q =
     (case q of [] \<Rightarrow> None | x # xs \<Rightarrow> (let m = classic_min x xs in Some (m, remove1 m q)))"

definition classic_relax ::
  "'n graph \<Rightarrow> 'n \<Rightarrow> 'n heuristic_fn \<Rightarrow> 'n classic_weight_fn \<Rightarrow> 'n \<Rightarrow> real \<Rightarrow> 'n
     \<Rightarrow> 'n classic_state \<Rightarrow> error + 'n classic_state" where
  "classic_relax G target heuristic weight curnode cost neighbor st =
     (case weight G (curnode, neighbor) of
        Inl err \<Rightarrow> Inl err
      | Inr c \<Rightarrow>
          (let ncost = cost + c;
               push = (\<lambda>h. st\<lparr>c_enqueued := (c_enqueued st)(neighbor \<mapsto> (ncost, h)),
                              c_queue := c_queue st
                                 @ [(ncost + h, c_counter st, neighbor, ncost, Some curnode)],
                              c_counter := Suc (c_counter st)\<rparr>)
           in case c_enqueued st neighbor of
                Some (qcost, h) \<Rightarrow> if qcost \<le> ncost then Inr st else Inr (push h)
              | None \<Rightarrow>
                  (case heuristic neighbor target of
                     Inl err \<Rightarrow> Inl err
                   | Inr h \<Rightarrow> Inr (push h))))"

datatype 'n classic_result =
  CExhausted | CFound "'n classic_item" "'n classic_state" | CFailed error
  | CContinue "'n classic_state"

definition classic_body ::
  "'n graph \<Rightarrow> 'n \<Rightarrow> 'n heuristic_fn \<Rightarrow> 'n classic_weight_fn \<Rightarrow> 'n classic_item
     \<Rightarrow> 'n classic_state \<Rightarrow> 'n classic_result" where
  "classic_body G target heuristic weight item st =
     (case item of (_, _, curnode, cost, parent) \<Rightarrow>
        if curnode = target then CFound item st
        else
          (let expand =
             (case neighbors G curnode of
                Inl err \<Rightarrow> CFailed err
              | Inr nbrs \<Rightarrow>
                  (case for_each (classic_relax G target heuristic weight curnode cost)
                          (map fst nbrs)
                          (st\<lparr>c_explored := (c_explored st)(curnode \<mapsto> parent)\<rparr>) of
                     Inl err \<Rightarrow> CFailed err
                   | Inr st2 \<Rightarrow> CContinue st2))
           in case c_explored st curnode of
                Some None \<Rightarrow> CContinue st
              | Some (Some p) \<Rightarrow>
                  (case c_enqueued st curnode of
                     None \<Rightarrow> CFailed KeyError
                   | Some (qcost, h) \<Rightarrow> if qcost < cost then CContinue st else expand)
              | None \<Rightarrow> expand))"

definition classic_step ::
  "'n graph \<Rightarrow> 'n \<Rightarrow> 'n heuristic_fn \<Rightarrow> 'n classic_weight_fn \<Rightarrow> 'n classic_state
     \<Rightarrow> 'n classic_result" where
  "classic_step G target heuristic weight st =
     (case classic_pop (c_queue st) of
        None \<Rightarrow> CExhausted
      | Some (item, q) \<Rightarrow> classic_body G target heuristic weight item (st\<lparr>c_queue := q\<rparr>))"

partial_function (option) classic_loop ::
  "'n graph \<Rightarrow> 'n \<Rightarrow> 'n heuristic_fn \<Rightarrow> 'n classic_weight_fn \<Rightarrow> 'n classic_state
     \<Rightarrow> (error + 'n list) option" where
  "classic_loop G target heuristic weight st =
     (case classic_step G target heuristic weight st of
        CExhausted \<Rightarrow> Some (Inl NetworkXNoPath)
      | CFailed err \<Rightarrow> Some (Inl err)
      | CFound item st1 \<Rightarrow>
          walk_back (c_explored st1) (snd (snd (snd (snd item)))) [fst (snd (snd item))]
      | CContinue st1 \<Rightarrow> classic_loop G target heuristic weight st1)"

definition classic_astar_path ::
  "'n graph \<Rightarrow> 'n \<Rightarrow> 'n \<Rightarrow> 'n heuristic_fn option \<Rightarrow> 'n classic_weight_fn
     \<Rightarrow> (error + 'n list) option" where
  "classic_astar_path G source target heuristic weight =
     (if \<not> has_node G source \<or> \<not> has_node G target then Some (Inl NodeNotFound)
      else
        classic_loop G target
          (case heuristic of None \<Rightarrow> default_heuristic | Some f \<Rightarrow> f) weight
          \<lparr>c_queue = [(0, 0, source, 0, None)], c_counter = 1, c_enqueued = Map.empty,
           c_explored = Map.empty\<rparr>)"

text \<open>A state of the search with edge history, seen as a state of the classic search:
  the explored paths are dropped.\<close>

definition drop_path :: "'n entry \<Rightarrow> 'n classic_item" where
  "drop_path e = (e_priority e, e_seq e, e_node e, e_dist e, e_parent e)"

definition drop_paths :: "'n state \<Rightarrow> 'n classic_state" where
  "drop_paths st =
     \<lparr>c_queue = map drop_path (queue st), c_counter = counter st, c_enqueued = enqueued st,
      c_explored = explored st\<rparr>"

fun drop_paths_result :: "'n step_result \<Rightarrow> 'n classic_result" where
  "drop_paths_result Exhausted = CExhausted"
| "drop_paths_result (Failed err) = CFailed err"
| "drop_paths_result (Found cur st) = CFound (drop_path cur) (drop_paths st)"
| "drop_paths_result (Continue st) = CContinue (drop_paths st)"

text \<open>The cost function \<open>w\<close> ignores the previous edge: on the graph it is the edge-only
  cost function \<open>w0\<close>.\<close>

definition edge_only :: "'n graph \<Rightarrow> 'n weight_fn \<Rightarrow> 'n classic_weight_fn \<Rightarrow> bool" where
  "edge_only G w w0 = (\<forall>prev e. w G prev e = w0 G e)"

subsection \<open>Invariants of the main loop\<close>

text \<open>What holds of the parents in every state the loop reaches, whatever the heuristic
  and the cost function are: a queued item without parent is for the source, a parent is
  an explored node with an edge to its child, and only the source is explored without a
  parent.\<close>

definition path_inv :: "'n graph \<Rightarrow> 'n \<Rightarrow> 'n state \<Rightarrow> bool" where
  "path_inv G s st =
     ((\<forall>e \<in> set (queue st).
         case e_parent e of
           None \<Rightarrow> e_node e = s
         | Some p \<Rightarrow> has_edge G p (e_node e) \<and> p \<in> dom (explored st))
      \<and> (\<forall>n p. explored st n = Some (Some p) \<longrightarrow> has_edge G p n \<and> p \<in> dom (explored st))
      \<and> (\<forall>n. explored st n = Some None \<longrightarrow> n = s))"

subsection \<open>Graphs with a cycle of negative cost\<close>

text \<open>S\<rightarrow>A (1), S\<rightarrow>T (100), A\<rightarrow>B (-1), B\<rightarrow>A (-1): the target is a neighbour of the source.\<close>

definition negative_cycle_graph :: "string graph" where
  "negative_cycle_graph =
     \<lparr>adj =
        [(''S'', [(''A'', [(''weight'', 1)]), (''T'', [(''weight'', 100)])]),
         (''A'', [(''B'', [(''weight'', -1)])]),
         (''T'', []),
         (''B'', [(''A'', [(''weight'', -1)])])],
      multigraph = False\<rparr>"

text \<open>The same cycle, and a target with no edge into it.\<close>

definition negative_cycle_isolated_target :: "string graph" where
  "negative_cycle_isolated_target =
     \<lparr>adj =
        [(''S'', [(''A'', [(''weight'', 1)])]),
         (''A'', [(''B'', [(''weight'', -1)])]),
         (''B'', [(''A'', [(''weight'', -1)])]),
         (''T'', [])],
      multigraph = False\<rparr>"

text \<open>The states of a search that goes round a cycle \<open>a\<close>, \<open>b\<close> of cost -1 per edge: the
  queue holds one item for \<open>a\<close> or \<open>b\<close>, at its best known cost, next to items \<open>rest\<close> of
  higher priority that are never popped.\<close>

definition cycle_inv :: "'n \<Rightarrow> 'n \<Rightarrow> 'n entry list \<Rightarrow> 'n state \<Rightarrow> bool" where
  "cycle_inv a b rest st =
     (\<exists>e. (queue st = rest @ [e] \<or> queue st = e # rest)
        \<and> (\<forall>x \<in> set rest. 1 < e_priority x)
        \<and> e_priority e \<le> 1 \<and> e_priority e = e_dist e
        \<and> (e_node e = a \<or> e_node e = b) \<and> e_parent e \<noteq> None
        \<and> enqueued st (e_node e) = Some (e_dist e, 0)
        \<and> (case enqueued st (if e_node e = a then b else a) of
              None \<Rightarrow> True
            | Some (q, hv) \<Rightarrow> e_dist e - 1 < q \<and> hv = 0)
        \<and> explored st a \<noteq> Some None \<and> explored st b \<noteq> Some None)"

subsection \<open>Conditions under which the search returns\<close>

text \<open>Every neighbour is a node of the graph (networkx adds both ends of an edge).\<close>

definition closed_graph :: "'n graph \<Rightarrow> bool" where
  "closed_graph G = (\<forall>u v. has_edge G u v \<longrightarrow> has_node G v)"

text \<open>A previous edge the search can pass for an edge leaving \<open>u\<close>: none, or an edge of the
  graph into \<open>u\<close>.\<close>

definition prev_ok :: "'n graph \<Rightarrow> 'n edge option \<Rightarrow> 'n \<Rightarrow> bool" where
  "prev_ok G prev u = (case prev of None \<Rightarrow> True | Some (p, u') \<Rightarrow> u' = u \<and> has_edge G p u)"

text \<open>The cost function returns a non-negative number on every edge, after every such
  previous edge.\<close>

definition nonneg_costs :: "'n graph \<Rightarrow> 'n weight_fn \<Rightarrow> bool" where
  "nonneg_costs G w =
     (\<forall>u v prev. has_edge G u v \<longrightarrow> prev_ok G prev u \<longrightarrow> (\<exists>c. w G prev (u, v) = Inr c \<and> 0 \<le> c))"

text \<open>The heuristic returns a number on every node (any number).\<close>

definition total_heuristic :: "'n graph \<Rightarrow> 'n \<Rightarrow> 'n heuristic_fn \<Rightarrow> bool" where
  "total_heuristic G t h = (\<forall>n. has_node G n \<longrightarrow> (\<exists>hv. h n t = Inr hv))"

text \<open>What holds of a queued item when costs are non-negative: its explored path ends in
  its node and repeats no node (but for a last step back into the source), and every
  node on the path other than the source is enqueued at a cost that is not above the cost
  of the item.\<close>

definition entry_shape :: "'n graph \<Rightarrow> 'n \<Rightarrow> 'n entry \<Rightarrow> bool" where
  "entry_shape G s e =
     (e_path e \<noteq> [] \<and> last (e_path e) = e_node e
      \<and> distinct (butlast (e_path e)) \<and> (e_node e \<noteq> s \<longrightarrow> distinct (e_path e))
      \<and> (\<forall>v \<in> set (e_path e). has_node G v)
      \<and> 0 \<le> e_dist e
      \<and> (\<exists>p. e_parent e = Some p \<and> prev_edge_of (e_path e) (e_node e) = Some (p, e_node e)))"

definition covered :: "'n \<Rightarrow> 'n state \<Rightarrow> 'n list \<Rightarrow> real \<Rightarrow> bool" where
  "covered s st path d =
     (\<forall>v \<in> set path. v \<noteq> s \<longrightarrow> (\<exists>q hv. enqueued st v = Some (q, hv) \<and> q \<le> d))"

definition entry_ok :: "'n graph \<Rightarrow> 'n \<Rightarrow> 'n state \<Rightarrow> 'n entry \<Rightarrow> bool" where
  "entry_ok G s st e =
     (entry_shape G s e \<and> covered s st (e_path e) (e_dist e)
      \<and> (\<exists>q hv. enqueued st (e_node e) = Some (q, hv) \<and> q \<le> e_dist e))"

definition search_inv :: "'n graph \<Rightarrow> 'n \<Rightarrow> 'n state \<Rightarrow> bool" where
  "search_inv G s st =
     (seq_inv st \<and> path_inv G s st \<and> (\<forall>e \<in> set (queue st). entry_ok G s st e)
      \<and> (\<forall>e \<in> set (queue st). \<forall>e' \<in> set (queue st).
            e_node e = e_node e' \<and> e_dist e = e_dist e' \<longrightarrow> e = e')
      \<and> explored st s = Some None \<and> (\<forall>n \<in> dom (explored st). has_node G n))"

text \<open>What holds of the popped item while its neighbours are processed.\<close>

definition visiting :: "'n graph \<Rightarrow> 'n \<Rightarrow> 'n state \<Rightarrow> 'n entry \<Rightarrow> bool" where
  "visiting G s st cur =
     (e_path cur \<noteq> [] \<and> last (e_path cur) = e_node cur \<and> distinct (e_path cur)
      \<and> (\<forall>v \<in> set (e_path cur). has_node G v)
      \<and> covered s st (e_path cur) (e_dist cur)
      \<and> 0 \<le> e_dist cur
      \<and> prev_ok G (prev_edge_of (e_path cur) (e_node cur)) (e_node cur)
      \<and> e_node cur \<in> dom (explored st))"

text \<open>A measure of the work left: an item with a shorter explored path weighs more than
  all the items its visit can push.\<close>

definition branching :: "'n graph \<Rightarrow> nat" where
  "branching G = 2 + sum_list (map (\<lambda>(u, nbrs). length nbrs) (adj G))"

definition entry_weight :: "'n graph \<Rightarrow> 'n entry \<Rightarrow> nat" where
  "entry_weight G e = branching G ^ (Suc (length (adj G)) - length (e_path e))"

definition potential :: "'n graph \<Rightarrow> 'n state \<Rightarrow> nat" where
  "potential G st = sum_list (map (entry_weight G) (queue st))"

text \<open>What keeps a reachable target from being missed: an enqueued node is explored or
  still queued, the neighbours of an explored node are enqueued, the source is explored
  or queued, and the target is never explored.\<close>

definition reach_inv :: "'n graph \<Rightarrow> 'n \<Rightarrow> 'n \<Rightarrow> 'n state \<Rightarrow> bool" where
  "reach_inv G s t st =
     ((\<forall>n. enqueued st n \<noteq> None \<longrightarrow>
          n \<in> dom (explored st) \<or> (\<exists>e \<in> set (queue st). e_node e = n))
      \<and> (\<forall>n m. n \<in> dom (explored st) \<longrightarrow> has_edge G n m \<longrightarrow> enqueued st m \<noteq> None)
      \<and> (s \<in> dom (explored st) \<or> (\<exists>e \<in> set (queue st). e_node e = s))
      \<and> t \<notin> dom (explored st))"

text \<open>The state while the neighbours of \<open>c\<close> are processed: the neighbours of \<open>c\<close> need not
  all be enqueued yet.\<close>

definition reach_inv_but :: "'n graph \<Rightarrow> 'n \<Rightarrow> 'n \<Rightarrow> 'n \<Rightarrow> 'n state \<Rightarrow> bool" where
  "reach_inv_but G s t c st =
     ((\<forall>n. enqueued st n \<noteq> None \<longrightarrow>
          n \<in> dom (explored st) \<or> (\<exists>e \<in> set (queue st). e_node e = n))
      \<and> (\<forall>n m. n \<in> dom (explored st) \<longrightarrow> n \<noteq> c \<longrightarrow> has_edge G n m \<longrightarrow> enqueued st m \<noteq> None)
      \<and> (s \<in> dom (explored st) \<or> (\<exists>e \<in> set (queue st). e_node e = s))
      \<and> t \<notin> dom (explored st))"

text \<open>The nodes met from \<open>n\<close> by following the explored table back to the source, in the
  order of the returned path.\<close>

inductive back_chain :: "('n \<rightharpoonup> 'n option) \<Rightarrow> 'n \<Rightarrow> 'n list \<Rightarrow> bool" for ex where
  root: "ex n = Some None \<Longrightarrow> back_chain ex n [n]"
| link: "ex n = Some (Some p) \<Longrightarrow> back_chain ex p path \<Longrightarrow> back_chain ex n (path @ [n])"

text \<open>Why the walk back ends when costs are non-negative. Let \<open>g n\<close> be the cost of the
  item that last set the entry of \<open>n\<close>. Then \<open>g\<close> does not increase from a node to its
  parent, the parent of a queued item has \<open>g\<close> at most the cost of the item, an explored
  node is enqueued at a cost of at most \<open>g\<close>, and a queued item that will replace the entry
  of its node costs strictly less than \<open>g\<close> of that node.\<close>

definition rank_facts :: "'n state \<Rightarrow> ('n \<Rightarrow> real) \<Rightarrow> bool" where
  "rank_facts st g =
     ((\<forall>n p. explored st n = Some (Some p) \<longrightarrow> g p \<le> g n)
      \<and> (\<forall>e \<in> set (queue st). \<forall>p. e_parent e = Some p \<longrightarrow> g p \<le> e_dist e)
      \<and> (\<forall>n p. explored st n = Some (Some p) \<longrightarrow>
            (\<exists>q hv. enqueued st n = Some (q, hv) \<and> q \<le> g n))
      \<and> (\<forall>e \<in> set (queue st). \<forall>p q hv.
            explored st (e_node e) = Some (Some p) \<longrightarrow> enqueued st (e_node e) = Some (q, hv)
            \<longrightarrow> e_dist e \<le> q \<longrightarrow> e_dist e < g (e_node e))
      \<and> (\<forall>n \<in> dom (explored st). \<exists>path. back_chain (explored st) n path))"

definition rank_inv :: "'n state \<Rightarrow> bool" where
  "rank_inv st = (\<exists>g. rank_facts st g)"

text \<open>A graph with positive weights: S\<rightarrow>A (1), S\<rightarrow>T (4), A\<rightarrow>T (2). Nothing leaves T.\<close>

definition triangle_graph :: "string graph" where
  "triangle_graph =
     \<lparr>adj =
        [(''S'', [(''A'', [(''weight'', 1)]), (''T'', [(''weight'', 4)])]),
         (''A'', [(''T'', [(''weight'', 2)])]),
         (''T'', [])],
      multigraph = False\<rparr>"

subsection \<open>The costs seen by the search\<close>

text \<open>The previous edge of an edge leaving \<open>n\<close>, for a node \<open>n\<close> whose parent is
  \<open>parent\<close>.\<close>

definition prev_of :: "'n option \<Rightarrow> 'n \<Rightarrow> 'n edge option" where
  "prev_of parent n = (case parent of None \<Rightarrow> None | Some p \<Rightarrow> Some (p, n))"

text \<open>The explored path of a queued item ends in its parent and its node, and the cost
  function has returned a number on every edge that leaves an explored node, called with
  the edge from the parent of that node as previous edge.\<close>

definition cost_inv :: "'n graph \<Rightarrow> 'n weight_fn \<Rightarrow> 'n state \<Rightarrow> bool" where
  "cost_inv G w st =
     ((\<forall>e \<in> set (queue st).
          e_path e \<noteq> [] \<and> last (e_path e) = e_node e
          \<and> prev_edge_of (e_path e) (e_node e) = prev_of (e_parent e) (e_node e))
      \<and> (\<forall>n p m. explored st n = Some p \<longrightarrow> has_edge G n m
            \<longrightarrow> (\<exists>c. w G (prev_of p n) (n, m) = Inr c)))"

subsection \<open>A search that cannot fail\<close>

text \<open>The cost function returns a number, of any sign, on every edge, after every
  previous edge the search can pass.\<close>

definition total_costs :: "'n graph \<Rightarrow> 'n weight_fn \<Rightarrow> bool" where
  "total_costs G w =
     (\<forall>u v prev. has_edge G u v \<longrightarrow> prev_ok G prev u \<longrightarrow> (\<exists>c. w G prev (u, v) = Inr c))"

text \<open>The node of a queued item is reachable from the source, and a node with a parent,
  queued or explored, is enqueued.\<close>

definition live_inv :: "'n graph \<Rightarrow> 'n \<Rightarrow> 'n state \<Rightarrow> bool" where
  "live_inv G s st =
     ((\<forall>e \<in> set (queue st).
          reachable G s (e_node e) \<and> (e_parent e \<noteq> None \<longrightarrow> e_node e \<in> dom (enqueued st)))
      \<and> (\<forall>n p. explored st n = Some (Some p) \<longrightarrow> n \<in> dom (enqueued st)))"

text \<open>None of the first \<open>k\<close> iterations from \<open>st\<close> pops the target.\<close>

definition never_popped ::
  "'n graph \<Rightarrow> 'n \<Rightarrow> 'n heuristic_fn \<Rightarrow> 'n weight_fn \<Rightarrow> nat \<Rightarrow> 'n state \<Rightarrow> bool" where
  "never_popped G t h w k st =
     (\<forall>j < k. case steps G t h w j st of
                 None \<Rightarrow> False
               | Some st' \<Rightarrow>
                   (case heappop (queue st') of
                      None \<Rightarrow> False
                    | Some (cur, q) \<Rightarrow> e_node cur \<noteq> t))"

text \<open>The graph with positive weights and one more node, U, that no edge touches.\<close>

definition island_graph :: "string graph" where
  "island_graph =
     \<lparr>adj =
        [(''S'', [(''A'', [(''weight'', 1)]), (''T'', [(''weight'', 4)])]),
         (''A'', [(''T'', [(''weight'', 2)])]),
         (''T'', []),
         (''U'', [])],
      multigraph = False\<rparr>"

section \<open>Evaluation on the test graph\<close>

lemmas search_defs =
  astar_step_def loop_body_def heappop_def heappush_def visit_def relax_def push_neighbor_def neighbors_def
  prev_edge_of_def entry_less_def init_state_def attr_weight_def edge_attr_def
  get_edge_data_def Let_def

lemma test_graph_plain_path:
  "astar_path test_graph ''S'' ''T'' None (AttrName ''weight'')
     = Some (Inr [''S'', ''A2'', ''B2'', ''C2'', ''T''])"
  unfolding astar_path_def
  apply (simp add: has_node_def test_graph_def weight_function_def)
  apply (subst astar_loop.simps, simp add: search_defs default_heuristic_def)+
  apply (subst walk_back.simps, simp)+
  done

lemma test_graph_dependent_path:
  "astar_path test_graph ''S'' ''T'' None (Callable dependent_weight)
     = Some (Inr [''S'', ''A1'', ''T''])"
  unfolding astar_path_def
  apply (simp add: has_node_def test_graph_def weight_function_def)
  apply (subst astar_loop.simps,
         simp add: search_defs default_heuristic_def dependent_weight_def test_graph_def)+
  apply (subst walk_back.simps, simp)+
  done

lemma test_graph_dependent_length:
  "astar_path_length test_graph ''S'' ''T'' None (Callable dependent_weight)
     = Some (Inr (- 5.5))"
  unfolding astar_path_length_def
  apply (simp add: test_graph_dependent_path weight_function_def)
  apply (simp add: has_node_def path_edges_def dependent_weight_def edge_attr_def
                   get_edge_data_def test_graph_def)
  done

text \<open>
  Claim C2. On the directed graph of the test suite (S\<rightarrow>A1 of weight -2, A1\<rightarrow>T of weight 7,
  and S\<rightarrow>A2, A2\<rightarrow>B2, B2\<rightarrow>C2, C2\<rightarrow>T of weight 1 each) the search with the attribute
  weight \<^verbatim>\<open>"weight"\<close> returns S, A2, B2, C2, T; with the cost function that divides the
  weight of the current edge by the weight of the previous one it returns S, A1, T, and
  the length of that path is -5.5.
\<close>

theorem test_graph_scenario:
  "astar_path test_graph ''S'' ''T'' None (AttrName ''weight'')
     = Some (Inr [''S'', ''A2'', ''B2'', ''C2'', ''T''])
   \<and> astar_path test_graph ''S'' ''T'' None (Callable dependent_weight)
     = Some (Inr [''S'', ''A1'', ''T''])
   \<and> astar_path_length test_graph ''S'' ''T'' None (Callable dependent_weight)
     = Some (Inr (- 5.5))"
  using test_graph_plain_path test_graph_dependent_path test_graph_dependent_length
  by simp

section \<open>Basic facts\<close>

subsection \<open>The length is the cost of the returned path\<close>

lemma zip_butlast_tl: "zip (butlast xs) (tl xs) = zip xs (tl xs)"
proof (induction xs)
  case Nil
  then show ?case by simp
next
  case (Cons x xs)
  then show ?case by (cases xs) simp_all
qed

lemma sum_weights_walk_cost:
  "sum_weights w G (zip (prev # map Some (zip (u # path) path)) (map Some (zip (u # path) path))) acc
     = walk_cost w G prev (u # path) acc"
proof (induction path arbitrary: prev u acc)
  case Nil
  then show ?case by simp
next
  case (Cons v rest)
  then show ?case by (simp split: sum.splits)
qed

lemma length_eq_walk_cost:
  "sum_weights w G (zip (butlast (path_edges path)) (tl (path_edges path))) 0
     = walk_cost w G None path 0"
proof (cases path)
  case Nil
  then show ?thesis by (simp add: path_edges_def)
next
  case (Cons u rest)
  have "zip (butlast (path_edges path)) (tl (path_edges path))
        = zip (path_edges path) (tl (path_edges path))"
    by (rule zip_butlast_tl)
  also have "\<dots> = zip (None # map Some (zip (u # rest) rest)) (map Some (zip (u # rest) rest))"
    using Cons zip_butlast_tl[of path] by (simp add: path_edges_def)
  finally show ?thesis
    using Cons sum_weights_walk_cost[of w G None u rest 0] by simp
qed

lemma astar_path_callable:
  "weight_function G weight = Inr w \<Longrightarrow>
   astar_path G s t heuristic (Callable w) = astar_path G s t heuristic weight"
  by (simp add: astar_path_def weight_function_def)

lemma astar_path_length_walk_cost:
  assumes "astar_path G s t heuristic weight = Some (Inr path)"
  shows "\<exists>w. weight_function G weight = Inr w
           \<and> astar_path_length G s t heuristic weight = Some (walk_cost w G None path 0)"
proof -
  from assms have nodes: "has_node G s" "has_node G t"
    by (auto simp: astar_path_def split: if_splits)
  from assms obtain w where w: "weight_function G weight = Inr w"
    by (cases "weight_function G weight") (auto simp: astar_path_def split: if_splits)
  with assms nodes astar_path_callable[OF w, of s t heuristic]
  have "astar_path_length G s t heuristic weight = Some (walk_cost w G None path 0)"
    by (simp add: astar_path_length_def length_eq_walk_cost)
  with w show ?thesis by blast
qed

subsection \<open>What the loops can return\<close>

lemma for_each_Inl: "for_each f xs st = Inl err \<Longrightarrow> \<exists>x s. x \<in> set xs \<and> f x s = Inl err"
proof (induction xs arbitrary: st)
  case Nil
  then show ?case by simp
next
  case (Cons a xs)
  show ?case
  proof (cases "f a st")
    case (Inl e)
    with Cons.prems have "f a st = Inl err" by simp
    then show ?thesis by auto
  next
    case (Inr st')
    with Cons.prems have "for_each f xs st' = Inl err" by simp
    from Cons.IH[OF this] show ?thesis by auto
  qed
qed

lemma relax_Inl:
  "relax G t h w cur nb st = Inl err \<Longrightarrow> (\<exists>p c. w G p c = Inl err) \<or> (\<exists>u. h u t = Inl err)"
  unfolding relax_def Let_def
  by (auto split: sum.splits option.splits if_splits)

lemma visit_Inl:
  assumes "visit G t h w cur st = Inl err"
  shows "err = KeyError \<or> (\<exists>p c. w G p c = Inl err) \<or> (\<exists>u. h u t = Inl err)"
proof (cases "neighbors G (e_node cur)")
  case (Inl e)
  with assms show ?thesis by (auto simp: visit_def neighbors_def split: option.splits)
next
  case (Inr nbrs)
  with assms obtain x s where "relax G t h w cur x s = Inl err"
    by (auto simp: visit_def dest!: for_each_Inl)
  from relax_Inl[OF this] show ?thesis by blast
qed

lemma astar_step_Failed:
  assumes "astar_step G t h w st = Failed err"
  shows "err = KeyError \<or> (\<exists>p c. w G p c = Inl err) \<or> (\<exists>u. h u t = Inl err)"
proof -
  from assms have "err = KeyError \<or> (\<exists>cur s. visit G t h w cur s = Inl err)"
    by (auto simp: astar_step_def loop_body_def split: option.splits if_splits sum.splits prod.splits)
  then show ?thesis
  proof
    assume "err = KeyError" then show ?thesis by simp
  next
    assume "\<exists>cur s. visit G t h w cur s = Inl err"
    then obtain cur s where "visit G t h w cur s = Inl err" by blast
    from visit_Inl[OF this] show ?thesis .
  qed
qed

lemma walk_back_result:
  assumes "walk_back ex nd path = Some r"
  shows "r = Inl KeyError \<or> (\<exists>p. r = Inr p)"
  by (rule walk_back.raw_induct[where P = "\<lambda>ex nd path r. r = Inl KeyError \<or> (\<exists>p. r = Inr p)", OF _ assms])
     (auto split: option.splits)

lemma astar_loop_induct [consumes 1, case_names Exhausted Failed Found Continue]:
  assumes "astar_loop G t h w st = Some r"
    and "\<And>st. astar_step G t h w st = Exhausted \<Longrightarrow> P st (Inl NetworkXNoPath)"
    and "\<And>st err. astar_step G t h w st = Failed err \<Longrightarrow> P st (Inl err)"
    and "\<And>st cur st1 r. astar_step G t h w st = Found cur st1 \<Longrightarrow>
            walk_back (explored st1) (e_parent cur) [e_node cur] = Some r \<Longrightarrow> P st r"
    and "\<And>st st1 r. astar_step G t h w st = Continue st1 \<Longrightarrow> P st1 r \<Longrightarrow> P st r"
  shows "P st r"
proof -
  have "G' = G \<and> t' = t \<and> h' = h \<and> w' = w \<longrightarrow> P st r" 
    if "astar_loop G' t' h' w' st = Some r" for G' t' h' w'
    using that
    apply (rule astar_loop.raw_induct[where P = "\<lambda>G' t' h' w' st r. G' = G \<and> t' = t \<and> h' = h \<and> w' = w \<longrightarrow> P st r", rotated])
    apply (auto split: step_result.splits intro: assms(2-5))
    done
  with assms(1) show ?thesis by blast
qed

section \<open>The degenerate search, the guards and the resolver\<close>

lemma astar_loop_source_is_target:
  "astar_loop G s h w (init_state s) = Some (Inr [s])"
  apply (subst astar_loop.simps)
  apply (simp add: astar_step_def loop_body_def heappop_def init_state_def)
  apply (subst walk_back.simps)
  apply simp
  done

text \<open>
  Claim C10. When source and target are the same node of the graph, the search returns
  the one-node path. The result is the same for every heuristic and every callable
  weight, also for callbacks that raise on every call, so neither is invoked. The weight
  is resolved first: an attribute name on a multigraph still fails.
\<close>

theorem source_is_target:
  assumes "has_node G s"
  shows "astar_path G s s heuristic (Callable w) = Some (Inr [s])
       \<and> astar_path G s s (Some (\<lambda>u v. Inl e1)) (Callable (\<lambda>G p c. Inl e2)) = Some (Inr [s])
       \<and> (\<not> multigraph G \<longrightarrow> astar_path G s s heuristic (AttrName a) = Some (Inr [s]))
       \<and> (multigraph G \<longrightarrow> astar_path G s s heuristic (AttrName a) = Some (Inl NotImplementedError))"
  using assms
  by (simp add: astar_path_def weight_function_def astar_loop_source_is_target)

theorem source_is_target_witness:
  "has_node test_graph ''S''
   \<and> astar_path test_graph ''S'' ''S'' None (Callable dependent_weight) = Some (Inr [''S''])
   \<and> astar_path test_graph ''S'' ''S'' (Some (\<lambda>u v. Inl TypeError)) (Callable (\<lambda>G p c. Inl KeyError))
       = Some (Inr [''S''])
   \<and> astar_path test_graph ''S'' ''S'' None (AttrName ''weight'') = Some (Inr [''S''])
   \<and> has_node multigraph_example ''a''
   \<and> astar_path multigraph_example ''a'' ''a'' None (AttrName ''weight'') = Some (Inl NotImplementedError)"
proof -
  have 1: "has_node test_graph ''S''" by (simp add: has_node_def test_graph_def)
  have 2: "has_node multigraph_example ''a''" by (simp add: has_node_def multigraph_example_def)
  have 3: "\<not> multigraph test_graph" by (simp add: test_graph_def)
  have 4: "multigraph multigraph_example" by (simp add: multigraph_example_def)
  show ?thesis
    using 1 2 3 4
      source_is_target[OF 1, of None dependent_weight TypeError KeyError "''weight''"]
      source_is_target[OF 2, of None dependent_weight TypeError KeyError "''weight''"]
    by simp
qed

text \<open>
  Claim C8, as stated, fails: the membership test for source and target comes before
  the weight is resolved, so an attribute name on a multigraph with an absent source ends
  in \<^verbatim>\<open>NodeNotFound\<close>.
\<close>

theorem multigraph_absent_node_counterexample:
  "multigraph multigraph_example
   \<and> astar_path multigraph_example ''x'' ''b'' None (AttrName ''weight'') = Some (Inl NodeNotFound)
   \<and> astar_path_length multigraph_example ''x'' ''b'' None (AttrName ''weight'')
       = Some (Inl NodeNotFound)"
  by (simp add: astar_path_def astar_path_length_def has_node_def multigraph_example_def)

text \<open>
  Claim C8, amended. The resolver rejects an attribute name on every multigraph and
  returns a callable unchanged; when source and target are both in the graph,
  \<^verbatim>\<open>astar_path\<close> and \<^verbatim>\<open>astar_path_length\<close> with an attribute name on a multigraph fail
  with \<^verbatim>\<open>NotImplementedError\<close>, whatever the heuristic and the edges are.
\<close>

theorem multigraph_attribute_weight:
  "(multigraph G \<longrightarrow> weight_function G (AttrName a) = Inl NotImplementedError)
   \<and> weight_function G (Callable f) = Inr f
   \<and> (multigraph G \<and> has_node G s \<and> has_node G t \<longrightarrow>
        astar_path G s t heuristic (AttrName a) = Some (Inl NotImplementedError)
        \<and> astar_path_length G s t heuristic (AttrName a) = Some (Inl NotImplementedError))"
  by (simp add: astar_path_def astar_path_length_def weight_function_def)

theorem multigraph_attribute_weight_witness:
  "multigraph multigraph_example \<and> has_node multigraph_example ''a'' \<and> has_node multigraph_example ''b''
   \<and> weight_function multigraph_example (AttrName ''weight'') = Inl NotImplementedError
   \<and> astar_path multigraph_example ''a'' ''b'' None (AttrName ''weight'')
        = Some (Inl NotImplementedError)
   \<and> astar_path_length multigraph_example ''a'' ''b'' None (AttrName ''weight'')
        = Some (Inl NotImplementedError)"
proof -
  have 1: "multigraph multigraph_example" by (simp add: multigraph_example_def)
  have 2: "has_node multigraph_example ''a''" "has_node multigraph_example ''b''"
    by (simp_all add: has_node_def multigraph_example_def)
  show ?thesis
    using 1 2 multigraph_attribute_weight[of multigraph_example "''weight''" dependent_weight "''a''" "''b''" None]
    by simp
qed

lemma edge_attr_error: "edge_attr G e name = Inl err \<Longrightarrow> err = TypeError \<or> err = KeyError"
  by (auto simp: edge_attr_def split: option.splits)

lemma sum_weights_Inl:
  "sum_weights w G ps acc = Inl err \<Longrightarrow> err = TypeError \<or> (\<exists>p c. w G p c = Inl err)"
proof (induction ps arbitrary: acc)
  case Nil
  then show ?case by simp
next
  case (Cons a ps)
  obtain u v where a: "a = (u, v)" by (cases a)
  show ?case
  proof (cases v)
    case None
    with Cons.prems a show ?thesis by simp
  next
    case (Some e)
    show ?thesis
    proof (cases "w G u e")
      case (Inl x)
      with Cons.prems a Some have "w G u e = Inl err" by simp
      then show ?thesis by blast
    next
      case (Inr c)
      with Cons.prems a Some have "sum_weights w G ps (acc + c) = Inl err" by simp
      from Cons.IH[OF this] show ?thesis .
    qed
  qed
qed

lemma astar_loop_not_NodeNotFound:
  assumes "astar_loop G t h w st = Some r"
    and "\<forall>p c. w G p c \<noteq> Inl NodeNotFound" and "\<forall>u. h u t \<noteq> Inl NodeNotFound"
  shows "r \<noteq> Inl NodeNotFound"
  using assms(1)
proof (induction rule: astar_loop_induct)
  case (Exhausted st)
  then show ?case by simp
next
  case (Failed st err)
  from astar_step_Failed[OF this] assms(2,3) show ?case by auto
next
  case (Found st cur st1 r)
  from walk_back_result[OF Found(2)] show ?case by auto
next
  case (Continue st st1 r)
  then show ?case by simp
qed

lemma astar_path_not_NodeNotFound:
  assumes "has_node G s" "has_node G t" "never_raises NodeNotFound G t heuristic weight"
  shows "astar_path G s t heuristic weight \<noteq> Some (Inl NodeNotFound)"
proof
  assume a: "astar_path G s t heuristic weight = Some (Inl NodeNotFound)"
  define h where "h = (case heuristic of None \<Rightarrow> default_heuristic | Some f \<Rightarrow> f)"
  have h: "\<forall>u. h u t \<noteq> Inl NodeNotFound"
    using assms(3) by (auto simp: h_def never_raises_def default_heuristic_def split: option.splits)
  from a assms(1,2) obtain w where w: "weight_function G weight = Inr w"
    and l: "astar_loop G t h w (init_state s) = Some (Inl NodeNotFound)"
    by (cases "weight_function G weight")
       (auto simp: astar_path_def h_def weight_function_def split: weight_spec.splits if_splits)
  have "\<forall>p c. w G p c \<noteq> Inl NodeNotFound"
    using w assms(3)
    by (auto simp: weight_function_def never_raises_def attr_weight_def
             split: weight_spec.splits if_splits dest: edge_attr_error)
  from astar_loop_not_NodeNotFound[OF l this h] show False by simp
qed

lemma weight_function_not_NodeNotFound:
  assumes "weight_function G weight = Inr w" "never_raises NodeNotFound G t heuristic weight"
  shows "\<forall>p c. w G p c \<noteq> Inl NodeNotFound"
  using assms
  by (auto simp: weight_function_def never_raises_def attr_weight_def
           split: weight_spec.splits if_splits dest: edge_attr_error)

lemma astar_path_length_not_NodeNotFound:
  assumes "has_node G s" "has_node G t" "never_raises NodeNotFound G t heuristic weight"
  shows "astar_path_length G s t heuristic weight \<noteq> Some (Inl NodeNotFound)"
proof (cases "weight_function G weight")
  case (Inl err)
  then have "err = NotImplementedError"
    by (auto simp: weight_function_def split: weight_spec.splits if_splits)
  with Inl assms(1,2) show ?thesis by (simp add: astar_path_length_def)
next
  case (Inr w)
  note w = weight_function_not_NodeNotFound[OF Inr assms(3)]
  have nr: "never_raises NodeNotFound G t heuristic (Callable w)"
    using w assms(3) by (simp add: never_raises_def)
  note p = astar_path_not_NodeNotFound[OF assms(1,2) nr]
  show ?thesis
  proof (cases "astar_path G s t heuristic (Callable w)")
    case None
    with Inr assms(1,2) show ?thesis by (simp add: astar_path_length_def)
  next
    case (Some r)
    show ?thesis
    proof (cases r)
      case (Inl err)
      with Some p Inr assms(1,2) show ?thesis by (auto simp: astar_path_length_def)
    next
      case (Inr path)
      with Some \<open>weight_function G weight = Inr w\<close> assms(1,2) w show ?thesis
        by (auto simp: astar_path_length_def dest!: sum_weights_Inl)
    qed
  qed
qed

text \<open>
  Claim C7. Both entry points fail with \<^verbatim>\<open>NodeNotFound\<close> when source or target is not
  in the graph, before the weight is resolved and before the search starts (whatever the
  weight and the heuristic are); and when both nodes are in the graph neither entry point
  ends in \<^verbatim>\<open>NodeNotFound\<close>, provided the callbacks do not raise that exception
  themselves.
\<close>

theorem node_not_found:
  "(\<not> has_node G s \<or> \<not> has_node G t \<longrightarrow>
      astar_path G s t heuristic weight = Some (Inl NodeNotFound)
      \<and> astar_path_length G s t heuristic weight = Some (Inl NodeNotFound))
   \<and> (has_node G s \<and> has_node G t \<and> never_raises NodeNotFound G t heuristic weight \<longrightarrow>
      astar_path G s t heuristic weight \<noteq> Some (Inl NodeNotFound)
      \<and> astar_path_length G s t heuristic weight \<noteq> Some (Inl NodeNotFound))"
  using astar_path_not_NodeNotFound[of G s t heuristic weight]
    astar_path_length_not_NodeNotFound[of G s t heuristic weight]
  by (auto simp: astar_path_def astar_path_length_def)

theorem node_not_found_witness:
  "\<not> has_node test_graph ''X''
   \<and> astar_path test_graph ''X'' ''T'' None (AttrName ''weight'') = Some (Inl NodeNotFound)
   \<and> astar_path_length test_graph ''X'' ''T'' None (AttrName ''weight'') = Some (Inl NodeNotFound)
   \<and> has_node test_graph ''S'' \<and> has_node test_graph ''T''
   \<and> never_raises NodeNotFound test_graph ''T'' None (AttrName ''weight'')
   \<and> astar_path test_graph ''S'' ''T'' None (AttrName ''weight'') \<noteq> Some (Inl NodeNotFound)
   \<and> astar_path_length test_graph ''S'' ''T'' None (AttrName ''weight'') \<noteq> Some (Inl NodeNotFound)"
proof -
  have 1: "\<not> has_node test_graph ''X''" "has_node test_graph ''S''" "has_node test_graph ''T''"
    by (simp_all add: has_node_def test_graph_def)
  have 2: "never_raises NodeNotFound test_graph ''T'' None (AttrName ''weight'')"
    by (simp add: never_raises_def)
  show ?thesis
    using 1 2 node_not_found[of test_graph "''X''" "''T''" None "AttrName ''weight''"]
      node_not_found[of test_graph "''S''" "''T''" None "AttrName ''weight''"]
    by simp
qed

section \<open>The test scenario once more, with its guards\<close>

theorem test_graph_scenario_witness:
  "has_node test_graph ''S'' \<and> has_node test_graph ''T'' \<and> \<not> multigraph test_graph
   \<and> astar_path test_graph ''S'' ''T'' None (AttrName ''weight'')
       = Some (Inr [''S'', ''A2'', ''B2'', ''C2'', ''T''])
   \<and> astar_path test_graph ''S'' ''T'' None (Callable dependent_weight)
       = Some (Inr [''S'', ''A1'', ''T''])
   \<and> astar_path_length test_graph ''S'' ''T'' None (Callable dependent_weight)
       = Some (Inr (- 5.5))"
proof -
  have "has_node test_graph ''S''" "has_node test_graph ''T''" "\<not> multigraph test_graph"
    by (simp_all add: has_node_def test_graph_def)
  with test_graph_scenario show ?thesis by simp
qed

section \<open>The heap, the inner loop and one iteration\<close>

lemma entry_less_irrefl: "\<not> entry_less a a"
  by (simp add: entry_less_def)

lemma entry_less_trans: "entry_less a b \<Longrightarrow> entry_less b c \<Longrightarrow> entry_less a c"
  by (auto simp: entry_less_def)

lemma entry_less_cotrans: "\<not> entry_less a b \<Longrightarrow> \<not> entry_less b c \<Longrightarrow> \<not> entry_less a c"
  by (auto simp: entry_less_def)

lemma heap_min_in: "heap_min m es \<in> set (m # es)"
  by (induction es arbitrary: m) auto

lemma heap_min_least: "x \<in> set (m # es) \<Longrightarrow> \<not> entry_less x (heap_min m es)"
proof (induction es arbitrary: m x)
  case Nil
  then show ?case by (simp add: entry_less_irrefl)
next
  case (Cons e es)
  let ?m' = "if entry_less e m then e else m"
  have m': "\<not> entry_less ?m' (heap_min ?m' es)" using Cons.IH[of ?m' ?m'] by simp
  have a: "\<not> entry_less m ?m'" "\<not> entry_less e ?m'"
    by (auto simp: entry_less_def)
  from Cons.prems consider "x = m" | "x = e" | "x \<in> set es" by auto
  then show ?case
  proof cases
    case 1
    with entry_less_cotrans[OF a(1) m'] show ?thesis by simp
  next
    case 2
    with entry_less_cotrans[OF a(2) m'] show ?thesis by simp
  next
    case 3
    then show ?thesis using Cons.IH[of x ?m'] by simp
  qed
qed

lemma heappop_Some:
  assumes "heappop q = Some (cur, rest)"
  shows "cur \<in> set q" "rest = remove1 cur q" "\<And>x. x \<in> set q \<Longrightarrow> \<not> entry_less x cur"
proof -
  from assms obtain e es where q: "q = e # es" and cur: "cur = heap_min e es"
    and rest: "rest = remove1 cur q"
    by (cases q) (auto simp: heappop_def Let_def)
  show "cur \<in> set q" using q cur heap_min_in[of e es] by simp
  show "rest = remove1 cur q" by (rule rest)
  show "\<not> entry_less x cur" if "x \<in> set q" for x
    using that q cur heap_min_least[of x e es] by simp
qed

lemma heappop_None: "heappop q = None \<longleftrightarrow> q = []"
  by (cases q) (simp_all add: heappop_def Let_def)

lemma for_each_induct:
  assumes "for_each f xs st = Inr st'" and "P st"
    and "\<And>x s s'. x \<in> set xs \<Longrightarrow> P s \<Longrightarrow> f x s = Inr s' \<Longrightarrow> P s'"
  shows "P st'"
  using assms
proof (induction xs arbitrary: st)
  case Nil
  then show ?case by simp
next
  case (Cons a xs)
  from Cons.prems(1) obtain s1 where 1: "f a st = Inr s1" and 2: "for_each f xs s1 = Inr st'"
    by (auto split: sum.splits)
  have "P s1" using Cons.prems(3)[OF _ Cons.prems(2) 1] by simp
  show ?case
  proof (rule Cons.IH[OF 2 \<open>P s1\<close>])
    fix x s s' assume "x \<in> set xs" "P s" "f x s = Inr s'"
    then show "P s'" using Cons.prems(3)[of x s s'] by simp
  qed
qed

lemma relax_cases:
  assumes "relax G t h w cur nb st = Inr st'"
  obtains (keep) c qcost hv where
      "w G (prev_edge_of (e_path cur) (e_node cur)) (e_node cur, nb) = Inr c"
      "enqueued st nb = Some (qcost, hv)" "qcost \<le> e_dist cur + c" "st' = st"
  | (improve) c qcost hv where
      "w G (prev_edge_of (e_path cur) (e_node cur)) (e_node cur, nb) = Inr c"
      "enqueued st nb = Some (qcost, hv)" "e_dist cur + c < qcost"
      "st' = push_neighbor cur nb (e_dist cur + c) hv st"
  | (new) c hv where
      "w G (prev_edge_of (e_path cur) (e_node cur)) (e_node cur, nb) = Inr c"
      "enqueued st nb = None" "h nb t = Inr hv"
      "st' = push_neighbor cur nb (e_dist cur + c) hv st"
  using assms unfolding relax_def Let_def
  by (auto split: sum.splits option.splits if_splits)

lemma relax_explored: "relax G t h w cur nb st = Inr st' \<Longrightarrow> explored st' = explored st"
  by (erule relax_cases) (simp_all add: push_neighbor_def)

lemma visit_Inr:
  assumes "visit G t h w cur st = Inr st'"
  obtains nbrs where "neighbors G (e_node cur) = Inr nbrs"
    "for_each (relax G t h w cur) (map fst nbrs)
       (st\<lparr>explored := (explored st)(e_node cur \<mapsto> e_parent cur)\<rparr>) = Inr st'"
  using assms unfolding visit_def by (cases "neighbors G (e_node cur)") simp_all

lemma visit_explored:
  fixes G :: "'n graph"
  assumes "visit G t h w cur st = Inr st'"
  shows "explored st' = (explored st)(e_node cur \<mapsto> e_parent cur)"
proof -
  from assms obtain nbrs :: "('n \<times> attrs) list" where
    f: "for_each (relax G t h w cur) (map fst nbrs)
          (st\<lparr>explored := (explored st)(e_node cur \<mapsto> e_parent cur)\<rparr>) = Inr st'"
    by (rule visit_Inr)
  show ?thesis
    by (rule for_each_induct[OF f, where P = "\<lambda>s. explored s = (explored st)(e_node cur \<mapsto> e_parent cur)"])
       (simp_all add: relax_explored)
qed

lemma astar_step_Continue:
  assumes "astar_step G t h w st = Continue st'"
  obtains (skip_source) cur q where
      "heappop (queue st) = Some (cur, q)" "e_node cur \<noteq> t"
      "explored st (e_node cur) = Some None" "st' = st\<lparr>queue := q\<rparr>"
  | (skip_stale) cur q p qcost hv where
      "heappop (queue st) = Some (cur, q)" "e_node cur \<noteq> t"
      "explored st (e_node cur) = Some (Some p)" "enqueued st (e_node cur) = Some (qcost, hv)"
      "qcost < e_dist cur" "st' = st\<lparr>queue := q\<rparr>"
  | (revisit) cur q p qcost hv where
      "heappop (queue st) = Some (cur, q)" "e_node cur \<noteq> t"
      "explored st (e_node cur) = Some (Some p)" "enqueued st (e_node cur) = Some (qcost, hv)"
      "e_dist cur \<le> qcost" "visit G t h w cur (st\<lparr>queue := q\<rparr>) = Inr st'"
  | (first_visit) cur q where
      "heappop (queue st) = Some (cur, q)" "e_node cur \<noteq> t"
      "explored st (e_node cur) = None" "visit G t h w cur (st\<lparr>queue := q\<rparr>) = Inr st'"
  using assms unfolding astar_step_def loop_body_def
  by (auto split: option.splits if_splits sum.splits prod.splits)


lemma astar_step_explored_cases:
  assumes "astar_step G t h w st = Continue st'"
  obtains (same) "explored st' = explored st"
  | (set) cur q where "heappop (queue st) = Some (cur, q)"
      "explored st' = (explored st)(e_node cur \<mapsto> e_parent cur)"
      "explored st (e_node cur) = None \<or>
       (\<exists>p qcost hv. explored st (e_node cur) = Some (Some p)
           \<and> enqueued st (e_node cur) = Some (qcost, hv) \<and> e_dist cur \<le> qcost)"
  using assms
proof (cases rule: astar_step_Continue)
  case (skip_source cur q)
  then show ?thesis using same by simp
next
  case (skip_stale cur q p qcost hv)
  then show ?thesis using same by simp
next
  case (revisit cur q p qcost hv)
  from visit_explored[OF revisit(6)] revisit show ?thesis using set[of cur q] by simp
next
  case (first_visit cur q)
  from visit_explored[OF first_visit(4)] first_visit show ?thesis using set[of cur q] by simp
qed

lemma astar_step_explored:
  assumes "astar_step G t h w st = Continue st'"
  shows "dom (explored st) \<subseteq> dom (explored st')"
    and "explored st n = Some None \<Longrightarrow> explored st' n = Some None"
  using assms by (cases rule: astar_step_explored_cases; auto)+

lemma astar_step_overwrite:
  assumes "astar_step G t h w st = Continue st'"
    and "explored st n = Some (Some p)" and "explored st' n \<noteq> Some (Some p)"
  shows "\<exists>cur q qcost hv. heappop (queue st) = Some (cur, q) \<and> e_node cur = n
             \<and> enqueued st n = Some (qcost, hv) \<and> e_dist cur \<le> qcost
             \<and> explored st' n = Some (e_parent cur)"
  using assms(1)
proof (cases rule: astar_step_explored_cases)
  case same
  with assms show ?thesis by simp
next
  case (set cur q)
  with assms(2,3) have "e_node cur = n" by (auto split: if_splits)
  with set assms(2) show ?thesis by auto
qed

lemma steps_explored:
  assumes "steps G t h w k st = Some st'"
  shows "dom (explored st) \<subseteq> dom (explored st')
       \<and> (\<forall>n. explored st n = Some None \<longrightarrow> explored st' n = Some None)"
  using assms
proof (induction k arbitrary: st)
  case 0
  then show ?case by simp
next
  case (Suc k)
  from Suc.prems obtain st1 where 1: "astar_step G t h w st = Continue st1"
    and 2: "steps G t h w k st1 = Some st'"
    by (auto split: step_result.splits)
  from astar_step_explored[OF 1] Suc.IH[OF 2] show ?case by blast
qed

section \<open>The explored table\<close>

lemma detour_steps_2:
  "map_option (\<lambda>st. explored st ''A'')
     (steps detour_graph ''T'' default_heuristic (attr_weight ''weight'') 2 (init_state ''S''))
   = Some (Some (Some ''S''))"
  by (simp add: eval_nat_numeral search_defs default_heuristic_def detour_graph_def)

lemma detour_steps_4:
  "map_option (\<lambda>st. explored st ''A'')
     (steps detour_graph ''T'' default_heuristic (attr_weight ''weight'') 4 (init_state ''S''))
   = Some (Some (Some ''B''))"
  by (simp add: eval_nat_numeral search_defs default_heuristic_def detour_graph_def)

lemma detour_path:
  "astar_path detour_graph ''S'' ''T'' None (AttrName ''weight'')
     = Some (Inr [''S'', ''B'', ''A'', ''T''])"
  unfolding astar_path_def
  apply (simp add: has_node_def detour_graph_def weight_function_def)
  apply (subst astar_loop.simps, simp add: search_defs default_heuristic_def)+
  apply (subst walk_back.simps, simp)+
  done

text \<open>
  Claim C4, as stated, fails. On the graph S\<rightarrow>A (1), S\<rightarrow>B (2), A\<rightarrow>T (10), B\<rightarrow>A (-5) node A
  is finalized with parent S in the second iteration and, once the cheaper way through B
  is popped, its entry is overwritten with parent B in the fourth; the path returned goes
  through B.
\<close>

theorem explored_overwritten_counterexample:
  "map_option (\<lambda>st. explored st ''A'')
     (steps detour_graph ''T'' default_heuristic (attr_weight ''weight'') 2 (init_state ''S''))
   = Some (Some (Some ''S''))
   \<and> map_option (\<lambda>st. explored st ''A'')
     (steps detour_graph ''T'' default_heuristic (attr_weight ''weight'') 4 (init_state ''S''))
   = Some (Some (Some ''B''))
   \<and> astar_path detour_graph ''S'' ''T'' None (AttrName ''weight'')
     = Some (Inr [''S'', ''B'', ''A'', ''T''])"
  using detour_steps_2 detour_steps_4 detour_path by simp

text \<open>
  Claim C4, amended. Over any number of iterations no entry of the explored table is
  removed and an entry with parent none (the source) is never overwritten. The entry of
  another node changes in an iteration only when that node is the one popped, with a cost
  not greater than its best enqueued cost, and it then becomes the parent of the popped
  item.
\<close>

theorem explored_table_updates:
  "(steps G t h w k st = Some st' \<longrightarrow>
      dom (explored st) \<subseteq> dom (explored st')
      \<and> (\<forall>n. explored st n = Some None \<longrightarrow> explored st' n = Some None))
   \<and> (astar_step G t h w st = Continue st1 \<and> explored st n = Some (Some p)
        \<and> explored st1 n \<noteq> Some (Some p) \<longrightarrow>
      (\<exists>cur q qcost hv. heappop (queue st) = Some (cur, q) \<and> e_node cur = n
         \<and> enqueued st n = Some (qcost, hv) \<and> e_dist cur \<le> qcost
         \<and> explored st1 n = Some (e_parent cur)))"
  using steps_explored[of G t h w k st st'] astar_step_overwrite[of G t h w st st1 n p]
  by blast

theorem explored_table_updates_witness:
  "\<exists>st3 st4.
     steps detour_graph ''T'' default_heuristic (attr_weight ''weight'') 3 (init_state ''S'') = Some st3
     \<and> astar_step detour_graph ''T'' default_heuristic (attr_weight ''weight'') st3 = Continue st4
     \<and> explored st3 ''A'' = Some (Some ''S'') \<and> explored st4 ''A'' = Some (Some ''B'')
     \<and> dom (explored (init_state ''S'')) \<subseteq> dom (explored st3)
     \<and> explored st3 ''S'' = Some None \<and> explored st4 ''S'' = Some None
     \<and> (\<exists>cur q qcost hv. heappop (queue st3) = Some (cur, q) \<and> e_node cur = ''A''
         \<and> enqueued st3 ''A'' = Some (qcost, hv) \<and> e_dist cur \<le> qcost
         \<and> explored st4 ''A'' = Some (e_parent cur))"
proof -
  let ?G = detour_graph and ?h = "default_heuristic :: string heuristic_fn"
    and ?w = "attr_weight ''weight'' :: string weight_fn"
  let ?st3 =
    "\<lparr>queue =
        [\<lparr>e_priority = 11, e_seq = 3, e_node = ''T'', e_dist = 11, e_parent = Some ''A'',
           e_path = [''S'', ''A'', ''T'']\<rparr>,
         \<lparr>e_priority = - 3, e_seq = 4, e_node = ''A'', e_dist = - 3, e_parent = Some ''B'',
           e_path = [''S'', ''B'', ''A'']\<rparr>],
      counter = 5,
      enqueued = [''B'' \<mapsto> (2, 0), ''T'' \<mapsto> (11, 0), ''A'' \<mapsto> (- 3, 0)],
      explored = [''S'' \<mapsto> None, ''A'' \<mapsto> Some ''S'', ''B'' \<mapsto> Some ''S'']\<rparr>"
  let ?st4 =
    "\<lparr>queue =
        [\<lparr>e_priority = 11, e_seq = 3, e_node = ''T'', e_dist = 11, e_parent = Some ''A'',
           e_path = [''S'', ''A'', ''T'']\<rparr>,
         \<lparr>e_priority = 7, e_seq = 5, e_node = ''T'', e_dist = 7, e_parent = Some ''A'',
           e_path = [''S'', ''B'', ''A'', ''T'']\<rparr>],
      counter = 6,
      enqueued = [''B'' \<mapsto> (2, 0), ''T'' \<mapsto> (7, 0), ''A'' \<mapsto> (- 3, 0)],
      explored = [''S'' \<mapsto> None, ''A'' \<mapsto> Some ''B'', ''B'' \<mapsto> Some ''S'']\<rparr>"
  have 3: "steps ?G ''T'' ?h ?w 3 (init_state ''S'') = Some ?st3"
    by (simp add: eval_nat_numeral search_defs default_heuristic_def detour_graph_def)
  have 4: "astar_step ?G ''T'' ?h ?w ?st3 = Continue ?st4"
    by (simp add: eval_nat_numeral search_defs default_heuristic_def detour_graph_def fun_upd_twist)
  have s1: "steps ?G ''T'' ?h ?w 1 ?st3 = Some ?st4" using 4 by simp
  have a: "explored ?st3 ''A'' = Some (Some ''S'')" "explored ?st4 ''A'' = Some (Some ''B'')"
    "explored ?st4 ''A'' \<noteq> Some (Some ''S'')" "explored ?st3 ''S'' = Some None"
    by simp_all
  from explored_table_updates[where G = ?G and t = "''T''" and h = ?h and w = ?w and k = 3
      and st = "init_state ''S''" and st' = ?st3]
    explored_table_updates[where G = ?G and t = "''T''" and h = ?h and w = ?w and k = 1
      and st = ?st3 and st' = ?st4 and ?st1.0 = ?st4 and n = "''A''" and p = "''S''"]
    3 4 a s1
  show ?thesis by (intro exI[of _ ?st3] exI[of _ ?st4]) auto
qed

section \<open>Sequence numbers and the arrangement of the queue\<close>

lemma seq_inv_init: "seq_inv (init_state s)"
  by (simp add: seq_inv_def init_state_def)

lemma seq_inv_pop:
  assumes "seq_inv st" "heappop (queue st) = Some (cur, q)"
  shows "seq_inv (st\<lparr>queue := q\<rparr>)"
proof -
  have q: "q = remove1 cur (queue st)" using heappop_Some(2)[OF assms(2)] .
  have "distinct (map e_seq (remove1 cur (queue st)))"
    using assms(1) unfolding seq_inv_def by (metis distinct_map distinct_remove1 inj_on_subset set_remove1_subset)
  moreover have "\<forall>e \<in> set (remove1 cur (queue st)). e_seq e < counter st"
    using assms(1) unfolding seq_inv_def by (meson notin_set_remove1)
  ultimately show ?thesis by (simp add: seq_inv_def q)
qed

lemma seq_inv_explored: "seq_inv (st\<lparr>explored := ex\<rparr>) = seq_inv st"
  by (simp add: seq_inv_def)

lemma seq_inv_push: "seq_inv st \<Longrightarrow> seq_inv (push_neighbor cur nb c hv st)"
  by (auto simp: seq_inv_def push_neighbor_def heappush_def less_Suc_eq)

lemma seq_inv_relax: "seq_inv st \<Longrightarrow> relax G t h w cur nb st = Inr st' \<Longrightarrow> seq_inv st'"
  by (erule relax_cases) (simp_all add: seq_inv_push)

lemma seq_inv_visit:
  fixes G :: "'n graph"
  assumes "seq_inv st" "visit G t h w cur st = Inr st'"
  shows "seq_inv st'"
proof -
  from assms(2) obtain nbrs :: "('n \<times> attrs) list" where
    f: "for_each (relax G t h w cur) (map fst nbrs)
          (st\<lparr>explored := (explored st)(e_node cur \<mapsto> e_parent cur)\<rparr>) = Inr st'"
    by (rule visit_Inr)
  show ?thesis
    by (rule for_each_induct[OF f, where P = seq_inv])
       (simp_all add: seq_inv_explored assms(1) seq_inv_relax)
qed

lemma seq_inv_step:
  assumes "seq_inv st" "astar_step G t h w st = Continue st'"
  shows "seq_inv st'"
  using assms(2)
  by (cases rule: astar_step_Continue)
     (auto intro: seq_inv_pop[OF assms(1)] seq_inv_visit[OF seq_inv_pop[OF assms(1)]])

lemma seq_inv_steps:
  assumes "seq_inv st" "steps G t h w k st = Some st'"
  shows "seq_inv st'"
  using assms
proof (induction k arbitrary: st)
  case 0
  then show ?case by simp
next
  case (Suc k)
  from Suc.prems(2) obtain st1 where 1: "astar_step G t h w st = Continue st1"
    and 2: "steps G t h w k st1 = Some st'"
    by (auto split: step_result.splits)
  from Suc.IH[OF seq_inv_step[OF Suc.prems(1) 1] 2] show ?case .
qed

lemma seq_inv_eq:
  assumes "seq_inv st" "a \<in> set (queue st)" "b \<in> set (queue st)" "e_seq a = e_seq b"
  shows "a = b"
  using assms unfolding seq_inv_def by (meson distinct_map inj_onD)

lemma heappop_strict_min:
  assumes "seq_inv st" "heappop (queue st) = Some (cur, q)" "e \<in> set q"
  shows "entry_less cur e"
proof -
  note p = heappop_Some[OF assms(2)]
  have d: "distinct (queue st)" using assms(1) by (auto simp: seq_inv_def distinct_map)
  from assms(3) p(2) d have e: "e \<in> set (queue st)" "e \<noteq> cur" by auto
  with seq_inv_eq[OF assms(1) e(1) p(1)] have "e_seq e \<noteq> e_seq cur" by blast
  with p(3)[OF e(1)] show ?thesis by (auto simp: entry_less_def)
qed

lemma heappop_permuted:
  assumes "seq_inv st" "heappop (queue st) = Some (cur, q)" "mset q' = mset (queue st)"
  shows "\<exists>r. heappop q' = Some (cur, r) \<and> mset r = mset q"
proof -
  note p = heappop_Some[OF assms(2)]
  have s: "set q' = set (queue st)" using assms(3) by (rule mset_eq_setD)
  with p(1) have "q' \<noteq> []" by auto
  then obtain cur' r where pop': "heappop q' = Some (cur', r)"
    by (cases "heappop q'") (auto simp: heappop_None)
  note p' = heappop_Some[OF pop']
  from p'(1) s have c': "cur' \<in> set (queue st)" by simp
  from p(3)[OF c'] p'(3)[of cur] p(1) s have "e_seq cur' = e_seq cur"
    by (auto simp: entry_less_def)
  from seq_inv_eq[OF assms(1) c' p(1) this] have "cur' = cur" .
  with pop' p'(2) p(2) assms(3) show ?thesis by simp
qed

section \<open>The result does not depend on the arrangement of the queue\<close>

lemma same_frontier_refl: "same_frontier st st"
  by (simp add: same_frontier_def)

lemma same_frontier_sym: "same_frontier st st' \<Longrightarrow> same_frontier st' st"
  by (simp add: same_frontier_def)

lemma seq_inv_same_frontier:
  assumes "same_frontier st st'" "seq_inv st"
  shows "seq_inv st'"
proof -
  from assms(1) have m: "mset (queue st') = mset (queue st)" and c: "counter st' = counter st"
    by (simp_all add: same_frontier_def)
  from m have "mset (map e_seq (queue st')) = mset (map e_seq (queue st))" by simp
  then have "distinct (map e_seq (queue st')) = distinct (map e_seq (queue st))"
    by (rule mset_eq_imp_distinct_iff)
  moreover from m have "set (queue st') = set (queue st)" by (rule mset_eq_setD)
  ultimately show ?thesis using assms(2) c by (simp add: seq_inv_def)
qed

lemma same_frontier_push:
  "same_frontier st st' \<Longrightarrow>
   same_frontier (push_neighbor cur nb c hv st) (push_neighbor cur nb c hv st')"
  by (simp add: same_frontier_def push_neighbor_def heappush_def)

lemma relax_same_frontier:
  assumes "same_frontier st st'"
  shows "relax G t h w cur nb st = Inl err \<Longrightarrow> relax G t h w cur nb st' = Inl err"
    and "relax G t h w cur nb st = Inr s1 \<Longrightarrow>
           \<exists>s1'. relax G t h w cur nb st' = Inr s1' \<and> same_frontier s1 s1'"
proof -
  from assms have e: "enqueued st' = enqueued st" by (simp add: same_frontier_def)
  show "relax G t h w cur nb st = Inl err \<Longrightarrow> relax G t h w cur nb st' = Inl err"
    unfolding relax_def Let_def e
    by (auto split: sum.splits option.splits if_splits)
  show "relax G t h w cur nb st = Inr s1 \<Longrightarrow>
           \<exists>s1'. relax G t h w cur nb st' = Inr s1' \<and> same_frontier s1 s1'"
    unfolding relax_def Let_def e
    using assms same_frontier_push[OF assms]
    by (auto split: sum.splits option.splits if_splits)
qed

lemma for_each_same_frontier:
  assumes "same_frontier st st'"
  shows "(for_each (relax G t h w cur) xs st = Inl err \<longrightarrow>
            for_each (relax G t h w cur) xs st' = Inl err)
       \<and> (for_each (relax G t h w cur) xs st = Inr s1 \<longrightarrow>
            (\<exists>s1'. for_each (relax G t h w cur) xs st' = Inr s1' \<and> same_frontier s1 s1'))"
  using assms
proof (induction xs arbitrary: st st')
  case Nil
  then show ?case by auto
next
  case (Cons x xs)
  show ?case
  proof (cases "relax G t h w cur x st")
    case (Inl e)
    with relax_same_frontier(1)[OF Cons.prems, of G t h w cur x e] show ?thesis by simp
  next
    case (Inr s2)
    with relax_same_frontier(2)[OF Cons.prems, of G t h w cur x s2]
    obtain s2' where 1: "relax G t h w cur x st' = Inr s2'" and 2: "same_frontier s2 s2'"
      by blast
    from Cons.IH[OF 2] Inr 1 show ?thesis by simp
  qed
qed

lemma same_frontier_explored:
  "same_frontier st st' \<Longrightarrow> same_frontier (st\<lparr>explored := ex\<rparr>) (st'\<lparr>explored := ex\<rparr>)"
  by (simp add: same_frontier_def)

lemma visit_same_frontier:
  assumes "same_frontier st st'"
  shows "(visit G t h w cur st = Inl err \<longrightarrow> visit G t h w cur st' = Inl err)
       \<and> (visit G t h w cur st = Inr s1 \<longrightarrow>
            (\<exists>s1'. visit G t h w cur st' = Inr s1' \<and> same_frontier s1 s1'))"
proof (cases "neighbors G (e_node cur)")
  case (Inl e)
  then show ?thesis by (simp add: visit_def)
next
  case (Inr nbrs)
  from assms have ex: "explored st' = explored st" by (simp add: same_frontier_def)
  from for_each_same_frontier[OF same_frontier_explored[OF assms], of G t h w cur "map fst nbrs" _ err s1]
    Inr ex
  show ?thesis by (simp add: visit_def)
qed

lemma loop_body_same_frontier:
  assumes "same_frontier st st'"
  shows "(loop_body G t h w cur st = Failed err \<longrightarrow> loop_body G t h w cur st' = Failed err)
       \<and> (loop_body G t h w cur st = Found c s1 \<longrightarrow>
            (\<exists>s1'. loop_body G t h w cur st' = Found c s1' \<and> same_frontier s1 s1'))
       \<and> (loop_body G t h w cur st = Continue s1 \<longrightarrow>
            (\<exists>s1'. loop_body G t h w cur st' = Continue s1' \<and> same_frontier s1 s1'))"
proof -
  from assms have e: "explored st' = explored st" "enqueued st' = enqueued st"
    by (simp_all add: same_frontier_def)
  note v = visit_same_frontier[OF assms, of G t h w cur]
  show ?thesis
  proof (cases "visit G t h w cur st")
    case (Inl x)
    with v[of x] have "visit G t h w cur st' = Inl x" by simp
    with Inl assms show ?thesis
      unfolding loop_body_def e
      by (auto split: option.splits if_splits)
  next
    case (Inr s2)
    with v[of _ s2] obtain s2' where "visit G t h w cur st' = Inr s2'" "same_frontier s2 s2'"
      by auto
    with Inr assms show ?thesis
      unfolding loop_body_def e
      by (auto split: option.splits if_splits)
  qed
qed


lemma loop_body_not_Exhausted: "loop_body G t h w cur st \<noteq> Exhausted"
  unfolding loop_body_def by (auto split: option.splits sum.splits)

lemma same_frontier_queue:
  "same_frontier st st' \<Longrightarrow> mset r = mset q \<Longrightarrow>
   same_frontier (st\<lparr>queue := q\<rparr>) (st'\<lparr>queue := r\<rparr>)"
  by (simp add: same_frontier_def)

lemma astar_step_same_frontier:
  assumes "seq_inv st" "same_frontier st st'"
  shows "(astar_step G t h w st = Exhausted \<longrightarrow> astar_step G t h w st' = Exhausted)
       \<and> (astar_step G t h w st = Failed err \<longrightarrow> astar_step G t h w st' = Failed err)
       \<and> (astar_step G t h w st = Found c s1 \<longrightarrow>
            (\<exists>s1'. astar_step G t h w st' = Found c s1' \<and> same_frontier s1 s1'))
       \<and> (astar_step G t h w st = Continue s1 \<longrightarrow>
            (\<exists>s1'. astar_step G t h w st' = Continue s1' \<and> same_frontier s1 s1'))"
proof (cases "heappop (queue st)")
  case None
  then have "queue st = []" by (simp add: heappop_None)
  with assms(2) have "queue st' = []" by (simp add: same_frontier_def)
  then have "heappop (queue st') = None" by (simp add: heappop_None)
  with None show ?thesis by (simp add: astar_step_def)
next
  case (Some a)
  obtain cur q where a: "a = (cur, q)" by (cases a)
  from assms(2) have m: "mset (queue st') = mset (queue st)" by (simp add: same_frontier_def)
  from heappop_permuted[OF assms(1) Some[unfolded a] m]
  obtain r where r: "heappop (queue st') = Some (cur, r)" "mset r = mset q" by blast
  note sf = same_frontier_queue[OF assms(2) r(2)]
  from loop_body_same_frontier[OF sf, of G t h w cur err c s1] Some a r(1)
  show ?thesis by (simp add: astar_step_def loop_body_not_Exhausted)
qed

lemma astar_loop_same_frontier_Some:
  assumes "astar_loop G t h w st = Some r" "seq_inv st" "same_frontier st st'"
  shows "astar_loop G t h w st' = Some r"
proof -
  have "\<forall>st'. seq_inv st \<longrightarrow> same_frontier st st' \<longrightarrow> astar_loop G t h w st' = Some r"
    using assms(1)
  proof (induction rule: astar_loop_induct)
    case (Exhausted st)
    show ?case
    proof (intro allI impI)
      fix st' assume "seq_inv st" "same_frontier st st'"
      from astar_step_same_frontier[OF this, of G t h w] Exhausted
      have "astar_step G t h w st' = Exhausted" by simp
      then show "astar_loop G t h w st' = Some (Inl NetworkXNoPath)"
        by (subst astar_loop.simps) simp
    qed
  next
    case (Failed st err)
    show ?case
    proof (intro allI impI)
      fix st' assume "seq_inv st" "same_frontier st st'"
      from astar_step_same_frontier[OF this, of G t h w err] Failed
      have "astar_step G t h w st' = Failed err" by simp
      then show "astar_loop G t h w st' = Some (Inl err)"
        by (subst astar_loop.simps) simp
    qed
  next
    case (Found st cur st1 r)
    show ?case
    proof (intro allI impI)
      fix st' assume "seq_inv st" "same_frontier st st'"
      from astar_step_same_frontier[OF this, of G t h w _ cur st1] Found(1)
      obtain s1' where "astar_step G t h w st' = Found cur s1'" "same_frontier st1 s1'"
        by auto
      with Found(2) show "astar_loop G t h w st' = Some r"
        by (subst astar_loop.simps) (simp add: same_frontier_def)
    qed
  next
    case (Continue st st1 r)
    show ?case
    proof (intro allI impI)
      fix st' assume a: "seq_inv st" "same_frontier st st'"
      from astar_step_same_frontier[OF this, of G t h w _ _ st1] Continue(1)
      obtain s1' where 1: "astar_step G t h w st' = Continue s1'" "same_frontier st1 s1'"
        by auto
      from Continue(2) seq_inv_step[OF a(1) Continue(1)] 1(2)
      have "astar_loop G t h w s1' = Some r" by blast
      with 1(1) show "astar_loop G t h w st' = Some r"
        by (subst astar_loop.simps) simp
    qed
  qed
  with assms(2,3) show ?thesis by blast
qed

lemma astar_loop_same_frontier:
  assumes "seq_inv st" "same_frontier st st'"
  shows "astar_loop G t h w st' = astar_loop G t h w st"
proof (cases "astar_loop G t h w st")
  case (Some r)
  from astar_loop_same_frontier_Some[OF Some assms] Some show ?thesis by simp
next
  case None
  show ?thesis
  proof (cases "astar_loop G t h w st'")
    case None
    with \<open>astar_loop G t h w st = None\<close> show ?thesis by simp
  next
    case (Some r)
    from astar_loop_same_frontier_Some[OF Some seq_inv_same_frontier[OF assms(2,1)]
        same_frontier_sym[OF assms(2)]] None
    show ?thesis by simp
  qed
qed

text \<open>
  Claim C5. A call is a function of its inputs (graph, source, target, heuristic and a
  weight without side effects), so two calls with the same inputs return the same path
  and the same length. What the sequence number contributes is this: in every state the
  main loop reaches, the queued items carry pairwise different sequence numbers below the
  counter; the popped item is strictly below every other item in the order on (priority,
  sequence number), so a tie in priority never reaches a comparison of nodes; and the
  outcome of the search is the same for every arrangement of the same items in the queue.
\<close>

theorem frontier_order_deterministic:
  assumes "steps G t h w k (init_state s) = Some st"
  shows "distinct (map e_seq (queue st)) \<and> (\<forall>e \<in> set (queue st). e_seq e < counter st)
       \<and> (\<forall>cur q. heappop (queue st) = Some (cur, q) \<longrightarrow> (\<forall>e \<in> set q. entry_less cur e))
       \<and> (\<forall>st'. same_frontier st st' \<longrightarrow> astar_loop G t h w st' = astar_loop G t h w st)"
proof -
  have i: "seq_inv st" using seq_inv_steps[OF seq_inv_init assms] .
  then show ?thesis
    using heappop_strict_min[OF i] astar_loop_same_frontier[OF i]
    by (auto simp: seq_inv_def)
qed


theorem frontier_order_deterministic_witness:
  "steps test_graph ''T'' default_heuristic (attr_weight ''weight'') 1 (init_state ''S'')
     = Some \<lparr>queue =
          [\<lparr>e_priority = - 2, e_seq = 1, e_node = ''A1'', e_dist = - 2, e_parent = Some ''S'',
             e_path = [''S'', ''A1'']\<rparr>,
           \<lparr>e_priority = 1, e_seq = 2, e_node = ''A2'', e_dist = 1, e_parent = Some ''S'',
             e_path = [''S'', ''A2'']\<rparr>],
        counter = 3, enqueued = [''A1'' \<mapsto> (- 2, 0), ''A2'' \<mapsto> (1, 0)],
        explored = [''S'' \<mapsto> None]\<rparr>
   \<and> astar_loop test_graph ''T'' default_heuristic (attr_weight ''weight'')
        \<lparr>queue =
          [\<lparr>e_priority = 1, e_seq = 2, e_node = ''A2'', e_dist = 1, e_parent = Some ''S'',
             e_path = [''S'', ''A2'']\<rparr>,
           \<lparr>e_priority = - 2, e_seq = 1, e_node = ''A1'', e_dist = - 2, e_parent = Some ''S'',
             e_path = [''S'', ''A1'']\<rparr>],
        counter = 3, enqueued = [''A1'' \<mapsto> (- 2, 0), ''A2'' \<mapsto> (1, 0)],
        explored = [''S'' \<mapsto> None]\<rparr>
     = astar_loop test_graph ''T'' default_heuristic (attr_weight ''weight'')
        \<lparr>queue =
          [\<lparr>e_priority = - 2, e_seq = 1, e_node = ''A1'', e_dist = - 2, e_parent = Some ''S'',
             e_path = [''S'', ''A1'']\<rparr>,
           \<lparr>e_priority = 1, e_seq = 2, e_node = ''A2'', e_dist = 1, e_parent = Some ''S'',
             e_path = [''S'', ''A2'']\<rparr>],
        counter = 3, enqueued = [''A1'' \<mapsto> (- 2, 0), ''A2'' \<mapsto> (1, 0)],
        explored = [''S'' \<mapsto> None]\<rparr>"
  (is "?steps = Some ?st \<and> ?l ?st' = ?l ?st")
proof -
  have 1: "?steps = Some ?st"
    by (simp add: search_defs default_heuristic_def test_graph_def)
  have 2: "same_frontier ?st ?st'"
    by (simp add: same_frontier_def)
  from frontier_order_deterministic[OF 1] 2 1 show ?thesis by blast
qed

section \<open>Comparison with the classic search\<close>

lemma classic_less_drop_path [simp]: "classic_less (drop_path a) (drop_path b) = entry_less a b"
  by (simp add: classic_less_def drop_path_def entry_less_def)

lemma classic_min_drop_path:
  "classic_min (drop_path m) (map drop_path es) = drop_path (heap_min m es)"
  by (induction es arbitrary: m) simp_all

lemma remove1_map_inj:
  "inj_on f (insert x (set xs)) \<Longrightarrow> remove1 (f x) (map f xs) = map f (remove1 x xs)"
proof (induction xs)
  case Nil
  then show ?case by simp
next
  case (Cons a xs)
  from Cons.prems have "inj_on f (insert x (set xs))"
    by (rule inj_on_subset) auto
  with Cons.IH have IH: "remove1 (f x) (map f xs) = map f (remove1 x xs)" by simp
  from Cons.prems have "f a = f x \<longleftrightarrow> a = x" unfolding inj_on_def by auto
  with IH show ?case by auto
qed

lemma drop_path_inj:
  assumes "seq_inv st"
  shows "inj_on drop_path (set (queue st))"
proof (rule inj_onI)
  fix a b assume "a \<in> set (queue st)" "b \<in> set (queue st)" "drop_path a = drop_path b"
  then show "a = b" using seq_inv_eq[OF assms, of a b] by (simp add: drop_path_def)
qed

lemma classic_pop_drop_paths:
  assumes "seq_inv st"
  shows "classic_pop (map drop_path (queue st))
         = map_option (\<lambda>(cur, q). (drop_path cur, map drop_path q)) (heappop (queue st))"
proof (cases "queue st")
  case Nil
  then show ?thesis by (simp add: classic_pop_def heappop_def)
next
  case (Cons e es)
  let ?m = "heap_min e es"
  have "?m \<in> set (queue st)" using heap_min_in[of e es] Cons by simp
  then have "insert ?m (set (queue st)) = set (queue st)" by auto
  with drop_path_inj[OF assms] have "inj_on drop_path (insert ?m (set (queue st)))" by simp
  from remove1_map_inj[OF this]
  have r: "remove1 (drop_path ?m) (map drop_path (queue st)) = map drop_path (remove1 ?m (queue st))" .
  have 1: "classic_pop (map drop_path (queue st))
           = Some (drop_path ?m, remove1 (drop_path ?m) (map drop_path (queue st)))"
    using Cons by (simp add: classic_pop_def Let_def classic_min_drop_path del: remove1.simps)
  have 2: "heappop (queue st) = Some (?m, remove1 ?m (queue st))"
    using Cons by (simp add: heappop_def Let_def del: remove1.simps)
  show ?thesis unfolding 1 2 r by simp
qed


lemma classic_relax_drop_paths:
  assumes "edge_only G w w0"
  shows "classic_relax G t h w0 (e_node cur) (e_dist cur) nb (drop_paths st)
         = map_sum id drop_paths (relax G t h w cur nb st)"
  unfolding classic_relax_def relax_def Let_def assms[unfolded edge_only_def, rule_format]
  by (auto simp: drop_paths_def push_neighbor_def heappush_def drop_path_def
           split: sum.splits option.splits)

lemma for_each_drop_paths:
  assumes "edge_only G w w0"
  shows "for_each (classic_relax G t h w0 (e_node cur) (e_dist cur)) xs (drop_paths st)
         = map_sum id drop_paths (for_each (relax G t h w cur) xs st)"
proof (induction xs arbitrary: st)
  case Nil
  then show ?case by simp
next
  case (Cons x xs)
  show ?case
    using classic_relax_drop_paths[OF assms, of t h cur x st] Cons.IH
    by (cases "relax G t h w cur x st") simp_all
qed

lemma drop_paths_explored:
  "(drop_paths st)\<lparr>c_explored := ex\<rparr> = drop_paths (st\<lparr>explored := ex\<rparr>)"
  by (simp add: drop_paths_def)

lemma classic_body_drop_paths:
  assumes "edge_only G w w0"
  shows "classic_body G t h w0 (drop_path cur) (drop_paths st)
         = drop_paths_result (loop_body G t h w cur st)"
proof -
  have e: "c_explored (drop_paths st) = explored st" "c_enqueued (drop_paths st) = enqueued st"
    by (simp_all add: drop_paths_def)
  have v: "(case neighbors G (e_node cur) of
              Inl err \<Rightarrow> CFailed err
            | Inr nbrs \<Rightarrow>
                (case for_each (classic_relax G t h w0 (e_node cur) (e_dist cur)) (map fst nbrs)
                        ((drop_paths st)\<lparr>c_explored := (c_explored (drop_paths st))(e_node cur \<mapsto> e_parent cur)\<rparr>) of
                   Inl err \<Rightarrow> CFailed err
                 | Inr st2 \<Rightarrow> CContinue st2))
           = drop_paths_result (case visit G t h w cur st of Inl err \<Rightarrow> Failed err | Inr st2 \<Rightarrow> Continue st2)"
    unfolding visit_def e drop_paths_explored
    by (cases "neighbors G (e_node cur)")
       (auto simp: for_each_drop_paths[OF assms] split: sum.splits)
  show ?thesis
    unfolding classic_body_def loop_body_def
    apply (simp add: drop_path_def[of cur] Let_def v)
    apply (simp add: e drop_path_def split: option.splits)
    done
qed

lemma queue_drop_paths: "(drop_paths st)\<lparr>c_queue := map drop_path q\<rparr> = drop_paths (st\<lparr>queue := q\<rparr>)"
  by (simp add: drop_paths_def)

lemma classic_step_drop_paths:
  assumes "edge_only G w w0" "seq_inv st"
  shows "classic_step G t h w0 (drop_paths st) = drop_paths_result (astar_step G t h w st)"
proof -
  have q: "c_queue (drop_paths st) = map drop_path (queue st)" by (simp add: drop_paths_def)
  show ?thesis
    unfolding classic_step_def astar_step_def q classic_pop_drop_paths[OF assms(2)]
    by (cases "heappop (queue st)")
       (auto simp: queue_drop_paths classic_body_drop_paths[OF assms(1)])
qed


lemma classic_loop_induct [consumes 1, case_names Exhausted Failed Found Continue]:
  assumes "classic_loop G t h w st = Some r"
    and "\<And>st. classic_step G t h w st = CExhausted \<Longrightarrow> P st (Inl NetworkXNoPath)"
    and "\<And>st err. classic_step G t h w st = CFailed err \<Longrightarrow> P st (Inl err)"
    and "\<And>st item st1 r. classic_step G t h w st = CFound item st1 \<Longrightarrow>
            walk_back (c_explored st1) (snd (snd (snd (snd item)))) [fst (snd (snd item))] = Some r
            \<Longrightarrow> P st r"
    and "\<And>st st1 r. classic_step G t h w st = CContinue st1 \<Longrightarrow> P st1 r \<Longrightarrow> P st r"
  shows "P st r"
proof -
  have "G' = G \<and> t' = t \<and> h' = h \<and> w' = w \<longrightarrow> P st r"
    if "classic_loop G' t' h' w' st = Some r" for G' t' h' w'
    using that
    apply (rule classic_loop.raw_induct[where P = "\<lambda>G' t' h' w' st r. G' = G \<and> t' = t \<and> h' = h \<and> w' = w \<longrightarrow> P st r", rotated])
    apply (auto split: classic_result.splits intro: assms(2-5))
    done
  with assms(1) show ?thesis by blast
qed

lemma walk_back_drop_path:
  "walk_back ex (snd (snd (snd (snd (drop_path cur))))) [fst (snd (snd (drop_path cur)))]
   = walk_back ex (e_parent cur) [e_node cur]"
  by (simp add: drop_path_def)

lemma astar_loop_classic_Some:
  assumes "edge_only G w w0" "astar_loop G t h w st = Some r" "seq_inv st"
  shows "classic_loop G t h w0 (drop_paths st) = Some r"
proof -
  note cs = classic_step_drop_paths[OF assms(1)]
  have "seq_inv st \<longrightarrow> classic_loop G t h w0 (drop_paths st) = Some r"
    using assms(2)
  proof (induction rule: astar_loop_induct)
    case (Exhausted st)
    then show ?case using cs[of st t h] by (subst classic_loop.simps) simp
  next
    case (Failed st err)
    then show ?case using cs[of st t h] by (subst classic_loop.simps) simp
  next
    case (Found st cur st1 r)
    then show ?case using cs[of st t h]
      by (subst classic_loop.simps) (simp add: walk_back_drop_path, simp add: drop_paths_def)
  next
    case (Continue st st1 r)
    then show ?case using cs[of st t h] seq_inv_step[of st G t h w st1]
      by (subst classic_loop.simps) simp
  qed
  with assms(3) show ?thesis by simp
qed

lemma classic_loop_astar_Some:
  assumes "edge_only G w w0" "classic_loop G t h w0 cst = Some r" "seq_inv st" "cst = drop_paths st"
  shows "astar_loop G t h w st = Some r"
proof -
  note cs = classic_step_drop_paths[OF assms(1)]
  have "\<forall>st. seq_inv st \<longrightarrow> cst = drop_paths st \<longrightarrow> astar_loop G t h w st = Some r"
    using assms(2)
  proof (induction rule: classic_loop_induct)
    case (Exhausted cst)
    show ?case
    proof (intro allI impI)
      fix st assume a: "seq_inv st" "cst = drop_paths st"
      with Exhausted cs[OF a(1), of t h] have "astar_step G t h w st = Exhausted"
        by (cases "astar_step G t h w st") simp_all
      then show "astar_loop G t h w st = Some (Inl NetworkXNoPath)"
        by (subst astar_loop.simps) simp
    qed
  next
    case (Failed cst err)
    show ?case
    proof (intro allI impI)
      fix st assume a: "seq_inv st" "cst = drop_paths st"
      with Failed cs[OF a(1), of t h] have "astar_step G t h w st = Failed err"
        by (cases "astar_step G t h w st") simp_all
      then show "astar_loop G t h w st = Some (Inl err)"
        by (subst astar_loop.simps) simp
    qed
  next
    case (Found cst item cst1 r)
    show ?case
    proof (intro allI impI)
      fix st assume a: "seq_inv st" "cst = drop_paths st"
      with Found(1) cs[OF a(1), of t h] obtain cur st1 where
        "astar_step G t h w st = Found cur st1" "item = drop_path cur" "cst1 = drop_paths st1"
        by (cases "astar_step G t h w st") simp_all
      with Found(2) show "astar_loop G t h w st = Some r"
        by (subst astar_loop.simps) (simp add: walk_back_drop_path, simp add: drop_paths_def)
    qed
  next
    case (Continue cst cst1 r)
    show ?case
    proof (intro allI impI)
      fix st assume a: "seq_inv st" "cst = drop_paths st"
      with Continue(1) cs[OF a(1), of t h] obtain st1 where
        1: "astar_step G t h w st = Continue st1" "cst1 = drop_paths st1"
        by (cases "astar_step G t h w st") simp_all
      from Continue(2) seq_inv_step[OF a(1) 1(1)] 1(2) have "astar_loop G t h w st1 = Some r"
        by blast
      with 1(1) show "astar_loop G t h w st = Some r"
        by (subst astar_loop.simps) simp
    qed
  qed
  with assms(3,4) show ?thesis by blast
qed

lemma astar_loop_classic:
  assumes "edge_only G w w0" "seq_inv st"
  shows "astar_loop G t h w st = classic_loop G t h w0 (drop_paths st)"
proof (cases "astar_loop G t h w st")
  case (Some r)
  from astar_loop_classic_Some[OF assms(1) Some assms(2)] Some show ?thesis by simp
next
  case None
  show ?thesis
  proof (cases "classic_loop G t h w0 (drop_paths st)")
    case None
    with \<open>astar_loop G t h w st = None\<close> show ?thesis by simp
  next
    case (Some r)
    from classic_loop_astar_Some[OF assms(1) Some assms(2) refl] None show ?thesis by simp
  qed
qed

lemma drop_paths_init:
  "drop_paths (init_state s)
   = \<lparr>c_queue = [(0, 0, s, 0, None)], c_counter = 1, c_enqueued = Map.empty,
      c_explored = Map.empty\<rparr>"
  by (simp add: drop_paths_def init_state_def drop_path_def)

lemma edge_only_attr_weight: "edge_only G (attr_weight a) (\<lambda>G e. edge_attr G e a)"
  by (simp add: edge_only_def attr_weight_def)

lemma astar_path_classic:
  assumes "edge_only G w w0"
  shows "astar_path G s t heuristic (Callable w) = classic_astar_path G s t heuristic w0"
  using astar_loop_classic[OF assms seq_inv_init, of t _ s]
  by (simp add: astar_path_def classic_astar_path_def weight_function_def drop_paths_init)

text \<open>
  Claim C9. When the cost function ignores the previous edge, the search returns what
  the classic A* search with the edge-only cost function returns on the same graph,
  source, target and heuristic: the same path, the same failure, or neither returns. The
  cost function resolved from an attribute name is of this kind.
\<close>

theorem edge_only_refines_classic:
  "(edge_only G w w0 \<longrightarrow>
      astar_path G s t heuristic (Callable w) = classic_astar_path G s t heuristic w0)
   \<and> (\<not> multigraph G \<longrightarrow>
      astar_path G s t heuristic (AttrName a)
        = classic_astar_path G s t heuristic (\<lambda>G e. edge_attr G e a))"
proof -
  have "astar_path G s t heuristic (AttrName a) = astar_path G s t heuristic (Callable (attr_weight a))"
    if "\<not> multigraph G"
    using that by (simp add: astar_path_def weight_function_def)
  with astar_path_classic[OF edge_only_attr_weight, of G s t heuristic a]
    astar_path_classic[of G w w0 s t heuristic]
  show ?thesis by simp
qed

theorem edge_only_refines_classic_witness:
  "edge_only test_graph (attr_weight ''weight'') (\<lambda>G e. edge_attr G e ''weight'')
   \<and> \<not> multigraph test_graph
   \<and> classic_astar_path test_graph ''S'' ''T'' None (\<lambda>G e. edge_attr G e ''weight'')
       = Some (Inr [''S'', ''A2'', ''B2'', ''C2'', ''T''])
   \<and> astar_path test_graph ''S'' ''T'' None (Callable (attr_weight ''weight''))
       = Some (Inr [''S'', ''A2'', ''B2'', ''C2'', ''T''])"
proof -
  have 1: "edge_only test_graph (attr_weight ''weight'') (\<lambda>G e. edge_attr G e ''weight'')"
    by (rule edge_only_attr_weight)
  have 2: "\<not> multigraph test_graph" by (simp add: test_graph_def)
  from edge_only_refines_classic[of test_graph "attr_weight ''weight''"
      "\<lambda>G e. edge_attr G e ''weight''" "''S''" "''T''" None "''weight''"]
    1 2 test_graph_plain_path
  show ?thesis by simp
qed

section \<open>The returned path is a walk from source to target\<close>

lemma has_edge_neighbors:
  "neighbors G u = Inr nbrs \<Longrightarrow> has_edge G u v \<longleftrightarrow> v \<in> set (map fst nbrs)"
  by (auto simp: neighbors_def has_edge_def split: option.splits)

lemma in_set_remove1D: "e \<in> set (remove1 x xs) \<Longrightarrow> e \<in> set xs"
  using notin_set_remove1 by fastforce

lemma path_inv_init: "path_inv G s (init_state s)"
  by (simp add: path_inv_def init_state_def)

lemma path_inv_pop:
  assumes "path_inv G s st" "heappop (queue st) = Some (cur, q)"
  shows "path_inv G s (st\<lparr>queue := q\<rparr>)"
  using assms(1) heappop_Some(2)[OF assms(2)]
  by (auto simp: path_inv_def split: option.splits dest!: in_set_remove1D)

lemma path_inv_popped:
  assumes "path_inv G s st" "heappop (queue st) = Some (cur, q)"
  shows "case e_parent cur of None \<Rightarrow> e_node cur = s
         | Some p \<Rightarrow> has_edge G p (e_node cur) \<and> p \<in> dom (explored st)"
  using assms heappop_Some(1)[OF assms(2)] by (auto simp: path_inv_def)

lemma path_inv_set_explored:
  assumes "path_inv G s st"
    "case e_parent cur of None \<Rightarrow> e_node cur = s
     | Some p \<Rightarrow> has_edge G p (e_node cur) \<and> p \<in> dom (explored st)"
    "explored st (e_node cur) \<noteq> Some None"
  shows "path_inv G s (st\<lparr>explored := (explored st)(e_node cur \<mapsto> e_parent cur)\<rparr>)"
  using assms unfolding path_inv_def
  by (auto split: option.splits)

lemma path_inv_push:
  assumes "path_inv G s st" "has_edge G (e_node cur) nb" "e_node cur \<in> dom (explored st)"
  shows "path_inv G s (push_neighbor cur nb c hv st)"
  using assms unfolding path_inv_def push_neighbor_def heappush_def
  by (auto split: option.splits)

lemma path_inv_relax:
  assumes "path_inv G s st" "has_edge G (e_node cur) nb" "e_node cur \<in> dom (explored st)"
    "relax G t h w cur nb st = Inr st'"
  shows "path_inv G s st' \<and> e_node cur \<in> dom (explored st')"
  using assms(4)
  by (cases rule: relax_cases)
     (use assms(1-3) path_inv_push[OF assms(1-3)] in \<open>auto simp: push_neighbor_def\<close>)

lemma path_inv_visit:
  fixes G :: "'n graph"
  assumes "path_inv G s st"
    "case e_parent cur of None \<Rightarrow> e_node cur = s
     | Some p \<Rightarrow> has_edge G p (e_node cur) \<and> p \<in> dom (explored st)"
    "explored st (e_node cur) \<noteq> Some None"
    "visit G t h w cur st = Inr st'"
  shows "path_inv G s st'"
proof -
  from assms(4) obtain nbrs :: "('n \<times> attrs) list" where
    n: "neighbors G (e_node cur) = Inr nbrs" and
    f: "for_each (relax G t h w cur) (map fst nbrs)
          (st\<lparr>explored := (explored st)(e_node cur \<mapsto> e_parent cur)\<rparr>) = Inr st'"
    by (rule visit_Inr)
  have "path_inv G s st' \<and> e_node cur \<in> dom (explored st')"
  proof (rule for_each_induct[OF f, where P = "\<lambda>st. path_inv G s st \<and> e_node cur \<in> dom (explored st)"])
    show "path_inv G s (st\<lparr>explored := (explored st)(e_node cur \<mapsto> e_parent cur)\<rparr>) \<and>
          e_node cur \<in> dom (explored (st\<lparr>explored := (explored st)(e_node cur \<mapsto> e_parent cur)\<rparr>))"
      using path_inv_set_explored[OF assms(1-3)] by simp
  next
    fix x s1 s2
    assume "x \<in> set (map fst nbrs)" "path_inv G s s1 \<and> e_node cur \<in> dom (explored s1)"
      "relax G t h w cur x s1 = Inr s2"
    then show "path_inv G s s2 \<and> e_node cur \<in> dom (explored s2)"
      using path_inv_relax[of G s s1 cur x t h w s2] has_edge_neighbors[OF n, of x] by blast
  qed
  then show ?thesis ..
qed

lemma path_inv_step:
  assumes "path_inv G s st" "astar_step G t h w st = Continue st'"
  shows "path_inv G s st'"
  using assms(2)
proof (cases rule: astar_step_Continue)
  case (skip_source cur q)
  then show ?thesis using path_inv_pop[OF assms(1)] by simp
next
  case (skip_stale cur q p qcost hv)
  then show ?thesis using path_inv_pop[OF assms(1)] by simp
next
  case (revisit cur q p qcost hv)
  show ?thesis
    by (rule path_inv_visit[OF path_inv_pop[OF assms(1) revisit(1)] _ _ revisit(6)])
       (use path_inv_popped[OF assms(1) revisit(1)] revisit(3) in \<open>auto split: option.splits\<close>)
next
  case (first_visit cur q)
  show ?thesis
    by (rule path_inv_visit[OF path_inv_pop[OF assms(1) first_visit(1)] _ _ first_visit(4)])
       (use path_inv_popped[OF assms(1) first_visit(1)] first_visit(3) in \<open>auto split: option.splits\<close>)
qed

lemma valid_walk_Cons:
  "xs \<noteq> [] \<Longrightarrow> valid_walk G (n # xs) \<longleftrightarrow> has_edge G n (hd xs) \<and> valid_walk G xs"
  by (cases xs) simp_all

lemma walk_back_valid:
  assumes "walk_back ex nd acc = Some (Inr path)"
    and "\<forall>n p. ex n = Some (Some p) \<longrightarrow> has_edge G p n" and "\<forall>n. ex n = Some None \<longrightarrow> n = s"
    and "acc \<noteq> []" and "valid_walk G (rev acc)"
    and "case nd of None \<Rightarrow> last acc = s | Some n \<Rightarrow> has_edge G n (last acc)"
  shows "path \<noteq> [] \<and> hd path = s \<and> last path = hd acc \<and> valid_walk G path"
proof -
  let ?pre = "\<lambda>nd acc. acc \<noteq> [] \<and> valid_walk G (rev acc)
      \<and> (case nd of None \<Rightarrow> last acc = s | Some n \<Rightarrow> has_edge G n (last acc))"
  let ?post = "\<lambda>acc path. path \<noteq> [] \<and> hd path = s \<and> last path = hd acc \<and> valid_walk G path"
  have "ex' = ex \<longrightarrow> (\<forall>path. r = Inr path \<longrightarrow> ?pre nd acc \<longrightarrow> ?post acc path)"
    if "walk_back ex' nd acc = Some r" for ex' r
    using that
  proof (rule walk_back.raw_induct[where P = "\<lambda>ex' nd acc r. ex' = ex \<longrightarrow>
       (\<forall>path. r = Inr path \<longrightarrow> ?pre nd acc \<longrightarrow> ?post acc path)", rotated])
    fix f ex' nd acc r
    assume IH: "\<And>ex' nd acc r. f ex' nd acc = Some r \<Longrightarrow> ex' = ex \<longrightarrow>
       (\<forall>path. r = Inr path \<longrightarrow> ?pre nd acc \<longrightarrow> ?post acc path)"
      and body: "(case nd of None \<Rightarrow> Some (Inr (rev acc))
          | Some n \<Rightarrow> (case ex' n of None \<Rightarrow> Some (Inl KeyError) | Some p \<Rightarrow> f ex' p (acc @ [n]))) = Some r"
    show "ex' = ex \<longrightarrow> (\<forall>path. r = Inr path \<longrightarrow> ?pre nd acc \<longrightarrow> ?post acc path)"
    proof (intro impI allI)
      fix path assume e: "ex' = ex" and r: "r = Inr path" and pre: "?pre nd acc"
      show "?post acc path"
      proof (cases nd)
        case None
        with body r pre show ?thesis by (auto simp: hd_rev last_rev)
      next
        case (Some n)
        with body r e obtain p where p: "ex n = Some p" and f: "f ex p (acc @ [n]) = Some (Inr path)"
          by (auto split: option.splits)
        have "?pre p (acc @ [n])"
          using pre Some p assms(2,3)
          by (auto simp: valid_walk_Cons hd_rev split: option.splits)
        with IH[OF f] pre show ?thesis by simp
      qed
    qed
  qed
  from this[OF assms(1)] assms(4-6) show ?thesis by simp
qed

lemma astar_step_Found:
  assumes "astar_step G t h w st = Found cur st1"
  obtains q where "heappop (queue st) = Some (cur, q)" "e_node cur = t" "st1 = st\<lparr>queue := q\<rparr>"
proof (cases "heappop (queue st)")
  case None
  with assms show ?thesis by (simp add: astar_step_def)
next
  case (Some a)
  obtain c q where a: "a = (c, q)" by (cases a)
  with Some assms have b: "loop_body G t h w c (st\<lparr>queue := q\<rparr>) = Found cur st1"
    by (simp add: astar_step_def)
  then have "e_node c = t \<and> cur = c \<and> st1 = st\<lparr>queue := q\<rparr>"
    unfolding loop_body_def
    by (simp split: if_splits option.splits sum.splits prod.splits)
  with Some a that show ?thesis by simp
qed

lemma astar_loop_path_valid:
  assumes "astar_loop G t h w st = Some (Inr path)" "path_inv G s st"
  shows "path \<noteq> [] \<and> hd path = s \<and> last path = t \<and> valid_walk G path"
proof -
  have "\<forall>path. r = Inr path \<longrightarrow> path_inv G s st \<longrightarrow>
          path \<noteq> [] \<and> hd path = s \<and> last path = t \<and> valid_walk G path"
    if "astar_loop G t h w st = Some r" for r
    using that
  proof (induction rule: astar_loop_induct)
    case (Exhausted st)
    then show ?case by simp
  next
    case (Failed st err)
    then show ?case by simp
  next
    case (Found st cur st1 r)
    show ?case
    proof (intro allI impI)
      fix path assume r: "r = Inr path" and inv: "path_inv G s st"
      from Found(1) obtain q where q: "heappop (queue st) = Some (cur, q)" "e_node cur = t"
        "st1 = st\<lparr>queue := q\<rparr>"
        by (rule astar_step_Found)
      have ex: "\<forall>n p. explored st1 n = Some (Some p) \<longrightarrow> has_edge G p n"
        "\<forall>n. explored st1 n = Some None \<longrightarrow> n = s"
        using inv q(3) by (simp_all add: path_inv_def)
      have par: "case e_parent cur of None \<Rightarrow> last [e_node cur] = s
                 | Some n \<Rightarrow> has_edge G n (last [e_node cur])"
        using path_inv_popped[OF inv q(1)] by (cases "e_parent cur") simp_all
      have "path \<noteq> [] \<and> hd path = s \<and> last path = hd [e_node cur] \<and> valid_walk G path"
        by (rule walk_back_valid[OF Found(2)[unfolded r] ex _ _ par]) simp_all
      with q(2) show "path \<noteq> [] \<and> hd path = s \<and> last path = t \<and> valid_walk G path" by simp
    qed
  next
    case (Continue st st1 r)
    show ?case
    proof (intro allI impI)
      fix path assume r: "r = Inr path" and inv: "path_inv G s st"
      from path_inv_step[OF inv Continue(1)] Continue(2) r
      show "path \<noteq> [] \<and> hd path = s \<and> last path = t \<and> valid_walk G path" by simp
    qed
  qed
  from this[OF assms(1)] assms(2) show ?thesis by simp
qed

lemma astar_path_valid:
  assumes "astar_path G s t heuristic weight = Some (Inr path)"
  shows "path \<noteq> [] \<and> hd path = s \<and> last path = t \<and> valid_walk G path"
proof -
  define h where "h = (case heuristic of None \<Rightarrow> default_heuristic | Some f \<Rightarrow> f)"
  from assms obtain w where "astar_loop G t h w (init_state s) = Some (Inr path)"
    unfolding astar_path_def Let_def h_def[symmetric]
    by (cases "weight_function G weight") (simp_all split: if_splits)
  from astar_loop_path_valid[OF this path_inv_init] show ?thesis .
qed

section \<open>A search that does not return\<close>

lemma astar_loop_diverges:
  assumes "I st"
    and "\<And>st. I st \<Longrightarrow> \<exists>st'. astar_step G t h w st = Continue st' \<and> I st'"
  shows "astar_loop G t h w st = None"
proof (cases "astar_loop G t h w st")
  case None
  then show ?thesis .
next
  case (Some r)
  then have "\<not> I st"
  proof (induction rule: astar_loop_induct)
    case (Exhausted st)
    then show ?case using assms(2)[of st] by auto
  next
    case (Failed st err)
    then show ?case using assms(2)[of st] by auto
  next
    case (Found st cur st1 r)
    then show ?case using assms(2)[of st] by auto
  next
    case (Continue st st1 r)
    then show ?case using assms(2)[of st] by auto
  qed
  with assms(1) show ?thesis by simp
qed

lemma heappop_strict_least:
  assumes "e \<in> set q" "\<forall>x \<in> set q. x \<noteq> e \<longrightarrow> entry_less e x"
  shows "heappop q = Some (e, remove1 e q)"
proof -
  from assms(1) have "q \<noteq> []" by auto
  then obtain cur r where p: "heappop q = Some (cur, r)"
    by (cases "heappop q") (auto simp: heappop_None)
  note h = heappop_Some[OF p]
  have "cur = e"
  proof (rule ccontr)
    assume "cur \<noteq> e"
    with assms(2) h(1) have "entry_less e cur" by simp
    with h(3)[OF assms(1)] show False by simp
  qed
  with p h(2) show ?thesis by simp
qed

lemma cycle_pop:
  assumes "queue st = rest @ [e] \<or> queue st = e # rest"
    "\<forall>x \<in> set rest. 1 < e_priority x" "e_priority e \<le> 1"
  shows "heappop (queue st) = Some (e, rest)"
proof -
  from assms(2,3) have n: "e \<notin> set rest" by auto
  have l: "entry_less e x" if "x \<in> set rest" for x
    using assms(2,3) that by (fastforce simp: entry_less_def)
  have "heappop (queue st) = Some (e, remove1 e (queue st))"
    by (rule heappop_strict_least) (use assms(1) l in auto)
  moreover have "remove1 e (queue st) = rest"
    using assms(1) n by (auto simp: remove1_append)
  ultimately show ?thesis by simp
qed


lemma cycle_inv_step:
  fixes G :: "'n graph"
  assumes G: "neighbors G a = Inr [(b, da)]" "neighbors G b = Inr [(a, db)]"
    and w: "\<forall>prev. w G prev (a, b) = Inr (- 1)" "\<forall>prev. w G prev (b, a) = Inr (- 1)"
    and h: "h a t = Inr 0" "h b t = Inr 0"
    and ne: "a \<noteq> b" "a \<noteq> t" "b \<noteq> t"
    and I: "cycle_inv a b rest st"
  shows "\<exists>st'. astar_step G t h w st = Continue st' \<and> cycle_inv a b rest st'"
proof -
  from I obtain e where e: "queue st = rest @ [e] \<or> queue st = e # rest"
    "\<forall>x \<in> set rest. 1 < e_priority x" "e_priority e \<le> 1" "e_priority e = e_dist e"
    "e_node e = a \<or> e_node e = b" "e_parent e \<noteq> None"
    "enqueued st (e_node e) = Some (e_dist e, 0)"
    "case enqueued st (if e_node e = a then b else a) of
       None \<Rightarrow> True | Some (q, hv) \<Rightarrow> e_dist e - 1 < q \<and> hv = 0"
    "explored st a \<noteq> Some None" "explored st b \<noteq> Some None"
    unfolding cycle_inv_def by blast
  note pop = cycle_pop[OF e(1,2,3)]
  let ?o = "if e_node e = a then b else a"
  let ?e' = "\<lparr>e_priority = e_dist e - 1 + 0, e_seq = counter st, e_node = ?o, e_dist = e_dist e - 1,
             e_parent = Some (e_node e), e_path = e_path e @ [?o]\<rparr>"
  let ?st' = "st\<lparr>queue := rest @ [?e'], explored := (explored st)(e_node e \<mapsto> e_parent e),
               enqueued := (enqueued st)(?o \<mapsto> (e_dist e - 1, 0)), counter := Suc (counter st)\<rparr>"
  have nb: "neighbors G (e_node e) = Inr [(?o, if e_node e = a then da else db)]"
    using e(5) G ne by auto
  have wo: "w G (prev_edge_of (e_path e) (e_node e)) (e_node e, ?o) = Inr (- 1)"
    using e(5) w ne by auto
  have ho: "h ?o t = Inr 0" using h by simp
  have rel: "relax G t h w e ?o (st\<lparr>queue := rest, explored := (explored st)(e_node e \<mapsto> e_parent e)\<rparr>)
             = Inr ?st'"
    using e(8) wo ho
    by (auto simp: relax_def Let_def push_neighbor_def heappush_def split: option.splits)
  have vis: "visit G t h w e (st\<lparr>queue := rest\<rparr>) = Inr ?st'"
    using rel by (simp add: visit_def nb)
  have nt: "e_node e \<noteq> t" using e(5) ne by auto
  have ex: "explored st (e_node e) \<noteq> Some None" using e(5,9,10) by auto
  have step: "astar_step G t h w st = Continue ?st'"
    using pop nt ex e(7) vis
    by (auto simp: astar_step_def loop_body_def split: option.splits)
  have "cycle_inv a b rest ?st'"
    unfolding cycle_inv_def
    apply (rule exI[of _ ?e'])
    using e ne by (auto split: option.splits)
  with step show ?thesis by blast
qed


lemma negative_cycle_first_step:
  "astar_step negative_cycle_graph ''T'' default_heuristic (attr_weight ''weight'') (init_state ''S'')
   = Continue
      \<lparr>queue =
         [\<lparr>e_priority = 1, e_seq = 1, e_node = ''A'', e_dist = 1, e_parent = Some ''S'',
            e_path = [''S'', ''A'']\<rparr>,
          \<lparr>e_priority = 100, e_seq = 2, e_node = ''T'', e_dist = 100, e_parent = Some ''S'',
            e_path = [''S'', ''T'']\<rparr>],
       counter = 3, enqueued = [''A'' \<mapsto> (1, 0), ''T'' \<mapsto> (100, 0)],
       explored = [''S'' \<mapsto> None]\<rparr>"
  by (simp add: search_defs default_heuristic_def negative_cycle_graph_def)

lemma negative_cycle_diverges:
  "astar_loop negative_cycle_graph ''T'' default_heuristic (attr_weight ''weight'') (init_state ''S'')
   = None"
proof -
  let ?G = negative_cycle_graph and ?h = "default_heuristic :: string heuristic_fn"
    and ?w = "attr_weight ''weight'' :: string weight_fn"
  let ?rest = "[\<lparr>e_priority = 100, e_seq = 2, e_node = ''T'', e_dist = 100,
                 e_parent = Some ''S'', e_path = [''S'', ''T'']\<rparr>]"
  let ?st1 = "\<lparr>queue =
         \<lparr>e_priority = 1, e_seq = 1, e_node = ''A'', e_dist = 1, e_parent = Some ''S'',
            e_path = [''S'', ''A'']\<rparr> # ?rest,
       counter = 3, enqueued = [''A'' \<mapsto> (1, 0), ''T'' \<mapsto> (100, 0)],
       explored = [''S'' \<mapsto> None]\<rparr>"
  have i: "cycle_inv ''A'' ''B'' ?rest ?st1"
    unfolding cycle_inv_def
    by (rule exI[of _ "\<lparr>e_priority = 1, e_seq = 1, e_node = ''A'', e_dist = 1,
          e_parent = Some ''S'', e_path = [''S'', ''A'']\<rparr>"]) simp
  have s: "\<exists>st'. astar_step ?G ''T'' ?h ?w st = Continue st' \<and> cycle_inv ''A'' ''B'' ?rest st'"
    if "cycle_inv ''A'' ''B'' ?rest st" for st
    by (rule cycle_inv_step[OF _ _ _ _ _ _ _ _ _ that])
       (simp_all add: neighbors_def negative_cycle_graph_def attr_weight_def edge_attr_def
          get_edge_data_def default_heuristic_def)
  have "astar_loop ?G ''T'' ?h ?w ?st1 = None"
    by (rule astar_loop_diverges[where I = "cycle_inv ''A'' ''B'' ?rest", OF i s])
  then show ?thesis
    by (subst astar_loop.simps) (simp add: negative_cycle_first_step)
qed

lemma negative_cycle_reachable: "reachable negative_cycle_graph ''S'' ''T''"
  unfolding reachable_def
  by (rule r_into_rtrancl) (simp add: has_edge_def negative_cycle_graph_def)

text \<open>
  Claim C1, as stated, fails: with the default heuristic and a cycle of negative cost
  the search never returns, although the target is a neighbour of the source. On S\<rightarrow>A (1),
  S\<rightarrow>T (100), A\<rightarrow>B (-1), B\<rightarrow>A (-1) the items for A and B are pushed again and again at
  lower and lower cost and the item for T, of priority 100, is never popped.
\<close>

theorem negative_cycle_counterexample:
  "has_node negative_cycle_graph ''S'' \<and> has_node negative_cycle_graph ''T''
   \<and> reachable negative_cycle_graph ''S'' ''T''
   \<and> astar_path negative_cycle_graph ''S'' ''T'' None (AttrName ''weight'') = None"
  using negative_cycle_diverges negative_cycle_reachable
  by (simp add: astar_path_def weight_function_def has_node_def negative_cycle_graph_def)

lemma isolated_first_step:
  "astar_step negative_cycle_isolated_target ''T'' default_heuristic (attr_weight ''weight'')
     (init_state ''S'')
   = Continue
      \<lparr>queue =
         [\<lparr>e_priority = 1, e_seq = 1, e_node = ''A'', e_dist = 1, e_parent = Some ''S'',
            e_path = [''S'', ''A'']\<rparr>],
       counter = 2, enqueued = [''A'' \<mapsto> (1, 0)], explored = [''S'' \<mapsto> None]\<rparr>"
  by (simp add: search_defs default_heuristic_def negative_cycle_isolated_target_def)

lemma isolated_diverges:
  "astar_loop negative_cycle_isolated_target ''T'' default_heuristic (attr_weight ''weight'')
     (init_state ''S'') = None"
proof -
  let ?G = negative_cycle_isolated_target and ?h = "default_heuristic :: string heuristic_fn"
    and ?w = "attr_weight ''weight'' :: string weight_fn"
  let ?st1 = "\<lparr>queue =
         [\<lparr>e_priority = 1, e_seq = 1, e_node = ''A'', e_dist = 1, e_parent = Some ''S'',
            e_path = [''S'', ''A'']\<rparr>],
       counter = 2, enqueued = [''A'' \<mapsto> (1, 0)], explored = [''S'' \<mapsto> None]\<rparr>"
  have i: "cycle_inv ''A'' ''B'' [] ?st1"
    unfolding cycle_inv_def
    by (rule exI[of _ "\<lparr>e_priority = 1, e_seq = 1, e_node = ''A'', e_dist = 1,
          e_parent = Some ''S'', e_path = [''S'', ''A'']\<rparr>"]) simp
  have s: "\<exists>st'. astar_step ?G ''T'' ?h ?w st = Continue st' \<and> cycle_inv ''A'' ''B'' [] st'"
    if "cycle_inv ''A'' ''B'' [] st" for st
    by (rule cycle_inv_step[OF _ _ _ _ _ _ _ _ _ that])
       (simp_all add: neighbors_def negative_cycle_isolated_target_def attr_weight_def
          edge_attr_def get_edge_data_def default_heuristic_def)
  have "astar_loop ?G ''T'' ?h ?w ?st1 = None"
    by (rule astar_loop_diverges[where I = "cycle_inv ''A'' ''B'' []", OF i s])
  then show ?thesis
    by (subst astar_loop.simps) (simp add: isolated_first_step)
qed

lemma isolated_unreachable: "\<not> reachable negative_cycle_isolated_target ''S'' ''T''"
proof
  assume "reachable negative_cycle_isolated_target ''S'' ''T''"
  then have "(''S'', ''T'') \<in> {(u, v). has_edge negative_cycle_isolated_target u v}\<^sup>*"
    by (simp add: reachable_def)
  then have "''T'' \<in> {''S'', ''A'', ''B''}"
  proof (induction rule: rtrancl_induct)
    case base
    then show ?case by simp
  next
    case (step y z)
    then show ?case
      by (auto simp: has_edge_def negative_cycle_isolated_target_def split: if_splits)
  qed
  then show False by simp
qed

text \<open>
  Claim C6, as stated, fails: on the same cycle with a target that no edge enters,
  source and target are in the graph and no path joins them, yet the queue never empties
  and the search does not return.
\<close>

theorem isolated_target_counterexample:
  "has_node negative_cycle_isolated_target ''S'' \<and> has_node negative_cycle_isolated_target ''T''
   \<and> \<not> reachable negative_cycle_isolated_target ''S'' ''T''
   \<and> astar_path negative_cycle_isolated_target ''S'' ''T'' None (AttrName ''weight'') = None"
  using isolated_diverges isolated_unreachable
  by (simp add: astar_path_def weight_function_def has_node_def
      negative_cycle_isolated_target_def)

section \<open>Non-negative costs: the invariant of the search\<close>

lemma prev_edge_of_snoc: "xs \<noteq> [] \<Longrightarrow> prev_edge_of (xs @ [x]) x = Some (last xs, x)"
  by (cases xs rule: rev_cases) (simp_all add: prev_edge_of_def nth_append)

lemma covered_queue [simp]: "covered s (st\<lparr>queue := q\<rparr>) path d = covered s st path d"
  by (simp add: covered_def)

lemma covered_explored [simp]: "covered s (st\<lparr>explored := ex\<rparr>) path d = covered s st path d"
  by (simp add: covered_def)

lemma entry_ok_queue [simp]: "entry_ok G s (st\<lparr>queue := q\<rparr>) e = entry_ok G s st e"
  by (simp add: entry_ok_def)

lemma entry_ok_explored [simp]: "entry_ok G s (st\<lparr>explored := ex\<rparr>) e = entry_ok G s st e"
  by (simp add: entry_ok_def)

lemma visiting_queue [simp]: "visiting G s (st\<lparr>queue := q\<rparr>) cur = visiting G s st cur"
  by (simp add: visiting_def)

lemma covered_mono: "covered s st path d \<Longrightarrow> d \<le> d' \<Longrightarrow> covered s st path d'"
  unfolding covered_def by fastforce

lemma enqueued_push [simp]:
  "enqueued (push_neighbor cur nb ncost hv st) = (enqueued st)(nb \<mapsto> (ncost, hv))"
  by (simp add: push_neighbor_def)

lemma explored_push [simp]: "explored (push_neighbor cur nb ncost hv st) = explored st"
  by (simp add: push_neighbor_def)

lemma queue_push [simp]:
  "queue (push_neighbor cur nb ncost hv st)
   = queue st @ [\<lparr>e_priority = ncost + hv, e_seq = counter st, e_node = nb, e_dist = ncost,
                   e_parent = Some (e_node cur), e_path = e_path cur @ [nb]\<rparr>]"
  by (simp add: push_neighbor_def heappush_def)

text \<open>The test that lets an item be pushed.\<close>

lemma covered_push:
  assumes "covered s st path d"
    and "enqueued st nb = None \<or> (\<exists>q hv'. enqueued st nb = Some (q, hv') \<and> ncost < q)"
  shows "covered s (push_neighbor cur nb ncost hv st) path d"
  unfolding covered_def
proof (intro ballI impI)
  fix v assume v: "v \<in> set path" "v \<noteq> s"
  with assms(1) obtain q hv0 where q: "enqueued st v = Some (q, hv0)" "q \<le> d"
    unfolding covered_def by blast
  show "\<exists>q hv'. enqueued (push_neighbor cur nb ncost hv st) v = Some (q, hv') \<and> q \<le> d"
  proof (cases "v = nb")
    case True
    with q assms(2) have "ncost \<le> d" by auto
    with True show ?thesis by simp
  next
    case False
    with q show ?thesis by simp
  qed
qed

lemma entry_ok_push_old:
  assumes "entry_ok G s st e"
    and "enqueued st nb = None \<or> (\<exists>q hv'. enqueued st nb = Some (q, hv') \<and> ncost < q)"
  shows "entry_ok G s (push_neighbor cur nb ncost hv st) e"
proof -
  from assms(1) obtain q hv0 where q: "enqueued st (e_node e) = Some (q, hv0)" "q \<le> e_dist e"
    unfolding entry_ok_def by blast
  have "\<exists>q hv'. enqueued (push_neighbor cur nb ncost hv st) (e_node e) = Some (q, hv') \<and> q \<le> e_dist e"
  proof (cases "e_node e = nb")
    case True
    with q assms(2) have "ncost \<le> e_dist e" by auto
    with True show ?thesis by simp
  next
    case False
    with q show ?thesis by simp
  qed
  with assms covered_push[OF _ assms(2), of s "e_path e" "e_dist e"] show ?thesis
    unfolding entry_ok_def by blast
qed

text \<open>A pushed neighbour is not on the path of the visited item, unless it is the source.\<close>

lemma pushed_not_on_path:
  assumes "visiting G s st cur" "0 \<le> c"
    and "enqueued st nb = None \<or> (\<exists>q hv'. enqueued st nb = Some (q, hv') \<and> e_dist cur + c < q)"
    and "nb \<noteq> s"
  shows "nb \<notin> set (e_path cur)"
proof
  assume "nb \<in> set (e_path cur)"
  with assms(1,4) obtain q hv where "enqueued st nb = Some (q, hv)" "q \<le> e_dist cur"
    unfolding visiting_def covered_def by blast
  with assms(2,3) show False by auto
qed

lemma entry_ok_push_new:
  assumes "visiting G s st cur" "0 \<le> c" "has_node G nb"
    and "enqueued st nb = None \<or> (\<exists>q hv'. enqueued st nb = Some (q, hv') \<and> e_dist cur + c < q)"
  shows "entry_ok G s (push_neighbor cur nb (e_dist cur + c) hv st)
           \<lparr>e_priority = e_dist cur + c + hv, e_seq = counter st, e_node = nb,
            e_dist = e_dist cur + c, e_parent = Some (e_node cur), e_path = e_path cur @ [nb]\<rparr>"
proof -
  from assms(1) have v: "e_path cur \<noteq> []" "last (e_path cur) = e_node cur" "distinct (e_path cur)"
    "\<forall>v \<in> set (e_path cur). has_node G v" "covered s st (e_path cur) (e_dist cur)" "0 \<le> e_dist cur"
    unfolding visiting_def by simp_all
  have shape: "entry_shape G s \<lparr>e_priority = e_dist cur + c + hv, e_seq = counter st, e_node = nb,
            e_dist = e_dist cur + c, e_parent = Some (e_node cur), e_path = e_path cur @ [nb]\<rparr>"
    unfolding entry_shape_def
    using v assms(2,3) pushed_not_on_path[OF assms(1,2,4)] prev_edge_of_snoc[OF v(1), of nb]
    by simp
  have "covered s st (e_path cur) (e_dist cur + c)"
    using covered_mono[OF v(5)] assms(2) by simp
  from covered_push[OF this assms(4), of cur hv]
  have cov: "covered s (push_neighbor cur nb (e_dist cur + c) hv st) (e_path cur @ [nb]) (e_dist cur + c)"
    unfolding covered_def by auto
  show ?thesis
    unfolding entry_ok_def using shape cov by simp
qed

lemma visiting_push:
  assumes "visiting G s st cur" "0 \<le> c"
    and "enqueued st nb = None \<or> (\<exists>q hv'. enqueued st nb = Some (q, hv') \<and> e_dist cur + c < q)"
  shows "visiting G s (push_neighbor cur nb (e_dist cur + c) hv st) cur"
  using assms(1) covered_push[OF _ assms(3), of s "e_path cur" "e_dist cur" cur hv]
  unfolding visiting_def by simp

lemma search_inv_push:
  assumes inv: "search_inv G s st" and vis: "visiting G s st cur" and c: "0 \<le> c"
    and edge: "has_edge G (e_node cur) nb" and closed: "closed_graph G"
    and new: "enqueued st nb = None \<or> (\<exists>q hv'. enqueued st nb = Some (q, hv') \<and> e_dist cur + c < q)"
  shows "search_inv G s (push_neighbor cur nb (e_dist cur + c) hv st)"
proof -
  let ?st' = "push_neighbor cur nb (e_dist cur + c) hv st"
  let ?e = "\<lparr>e_priority = e_dist cur + c + hv, e_seq = counter st, e_node = nb,
            e_dist = e_dist cur + c, e_parent = Some (e_node cur), e_path = e_path cur @ [nb]\<rparr>"
  from inv have i: "seq_inv st" "path_inv G s st" "\<forall>e \<in> set (queue st). entry_ok G s st e"
    "\<forall>e \<in> set (queue st). \<forall>e' \<in> set (queue st).
        e_node e = e_node e' \<and> e_dist e = e_dist e' \<longrightarrow> e = e'"
    "explored st s = Some None" "\<forall>n \<in> dom (explored st). has_node G n"
    unfolding search_inv_def by simp_all
  from vis have d: "e_node cur \<in> dom (explored st)" unfolding visiting_def by simp
  from edge closed have nb: "has_node G nb" unfolding closed_graph_def by blast
  have 1: "seq_inv ?st'" by (rule seq_inv_push[OF i(1)])
  have 2: "path_inv G s ?st'" by (rule path_inv_push[OF i(2) edge d])
  have 3: "\<forall>e \<in> set (queue ?st'). entry_ok G s ?st' e"
    using i(3) entry_ok_push_old[OF _ new, of G s _ cur hv] entry_ok_push_new[OF vis c nb new, of hv]
    by auto
  have fresh: "\<not> (e_node e = nb \<and> e_dist e = e_dist cur + c)" if "e \<in> set (queue st)" for e
  proof
    assume a: "e_node e = nb \<and> e_dist e = e_dist cur + c"
    from i(3) that obtain q hv0 where "enqueued st (e_node e) = Some (q, hv0)" "q \<le> e_dist e"
      unfolding entry_ok_def by blast
    with a new show False by auto
  qed
  have 4: "\<forall>e \<in> set (queue ?st'). \<forall>e' \<in> set (queue ?st').
        e_node e = e_node e' \<and> e_dist e = e_dist e' \<longrightarrow> e = e'"
  proof (intro ballI impI)
    fix e e' assume e: "e \<in> set (queue ?st')" "e' \<in> set (queue ?st')"
      "e_node e = e_node e' \<and> e_dist e = e_dist e'"
    from e(1,2) consider "e \<in> set (queue st)" "e' \<in> set (queue st)"
      | "e = ?e" "e' \<in> set (queue st)" | "e \<in> set (queue st)" "e' = ?e" | "e = ?e" "e' = ?e"
      by auto
    then show "e = e'"
    proof cases
      case 1
      with i(4) e(3) show ?thesis by blast
    next
      case 2
      with fresh[of e'] e(3) show ?thesis by simp
    next
      case 3
      with fresh[of e] e(3) show ?thesis by simp
    next
      case 4
      then show ?thesis by simp
    qed
  qed
  show ?thesis
    unfolding search_inv_def using 1 2 3 4 i(5,6) by simp
qed

lemma potential_push:
  "potential G (push_neighbor cur nb ncost hv st)
   = potential G st + branching G ^ (length (adj G) - length (e_path cur))"
  by (simp add: potential_def entry_weight_def)

lemma relax_ok:
  assumes inv: "search_inv G s st" and vis: "visiting G s st cur"
    and edge: "has_edge G (e_node cur) nb" and closed: "closed_graph G"
    and w: "nonneg_costs G w" and h: "total_heuristic G t h"
  shows "\<exists>st'. relax G t h w cur nb st = Inr st' \<and> search_inv G s st' \<and> visiting G s st' cur
           \<and> potential G st' \<le> potential G st + branching G ^ (length (adj G) - length (e_path cur))"
proof -
  from vis have "prev_ok G (prev_edge_of (e_path cur) (e_node cur)) (e_node cur)"
    unfolding visiting_def by simp
  with w edge obtain c where c: "w G (prev_edge_of (e_path cur) (e_node cur)) (e_node cur, nb) = Inr c"
    "0 \<le> c"
    unfolding nonneg_costs_def by blast
  from edge closed have "has_node G nb" unfolding closed_graph_def by blast
  with h obtain hv where hv: "h nb t = Inr hv" unfolding total_heuristic_def by blast
  show ?thesis
  proof (cases "enqueued st nb")
    case None
    then have r: "relax G t h w cur nb st = Inr (push_neighbor cur nb (e_dist cur + c) hv st)"
      using c hv by (simp add: relax_def)
    from None have new: "enqueued st nb = None \<or>
        (\<exists>q hv'. enqueued st nb = Some (q, hv') \<and> e_dist cur + c < q)" by simp
    show ?thesis
      using r search_inv_push[OF inv vis c(2) edge closed new] visiting_push[OF vis c(2) new]
      by (simp add: potential_push)
  next
    case (Some a)
    obtain q hv' where a: "a = (q, hv')" by (cases a)
    show ?thesis
    proof (cases "q \<le> e_dist cur + c")
      case True
      with Some a c have "relax G t h w cur nb st = Inr st" by (simp add: relax_def)
      with inv vis show ?thesis by simp
    next
      case False
      with Some a c have r: "relax G t h w cur nb st = Inr (push_neighbor cur nb (e_dist cur + c) hv' st)"
        by (simp add: relax_def)
      from False Some a have new: "enqueued st nb = None \<or>
        (\<exists>q hv'. enqueued st nb = Some (q, hv') \<and> e_dist cur + c < q)" by simp
      show ?thesis
        using r search_inv_push[OF inv vis c(2) edge closed new] visiting_push[OF vis c(2) new]
        by (simp add: potential_push)
    qed
  qed
qed

lemma for_each_relax_ok:
  assumes "search_inv G s st" "visiting G s st cur"
    and "\<forall>x \<in> set xs. has_edge G (e_node cur) x" and closed: "closed_graph G"
    and w: "nonneg_costs G w" and h: "total_heuristic G t h"
  shows "\<exists>st'. for_each (relax G t h w cur) xs st = Inr st' \<and> search_inv G s st'
           \<and> visiting G s st' cur
           \<and> potential G st' \<le> potential G st
                + length xs * branching G ^ (length (adj G) - length (e_path cur))"
  using assms(1-3)
proof (induction xs arbitrary: st)
  case Nil
  then show ?case by simp
next
  case (Cons x xs)
  from Cons.prems(3) have e: "has_edge G (e_node cur) x" by simp
  from relax_ok[OF Cons.prems(1,2) e closed w h] obtain s1 where
    s1: "relax G t h w cur x st = Inr s1" "search_inv G s s1" "visiting G s s1 cur"
    "potential G s1 \<le> potential G st + branching G ^ (length (adj G) - length (e_path cur))"
    by blast
  from Cons.IH[OF s1(2,3)] Cons.prems(3) obtain s2 where
    s2: "for_each (relax G t h w cur) xs s1 = Inr s2" "search_inv G s s2" "visiting G s s2 cur"
    "potential G s2 \<le> potential G s1
                + length xs * branching G ^ (length (adj G) - length (e_path cur))"
    by auto
  from s1 s2 show ?case by simp
qed

lemma has_node_iff: "has_node G n \<longleftrightarrow> n \<in> fst ` set (adj G)"
  by (simp add: has_node_def map_of_eq_None_iff)

lemma has_node_neighbors:
  assumes "has_node G n"
  shows "\<exists>nbrs. neighbors G n = Inr nbrs \<and> length nbrs + 2 \<le> branching G"
proof -
  from assms obtain nbrs where m: "map_of (adj G) n = Some nbrs"
    by (auto simp: has_node_def)
  then have "(n, nbrs) \<in> set (adj G)" by (rule map_of_SomeD)
  then have "length nbrs \<in> set (map (\<lambda>(u, nbrs). length nbrs) (adj G))" by force
  then have "length nbrs \<le> sum_list (map (\<lambda>(u, nbrs). length nbrs) (adj G))"
    by (simp add: member_le_sum_list)
  with m show ?thesis by (simp add: neighbors_def branching_def)
qed

lemma path_length_bound:
  assumes "distinct xs" "\<forall>v \<in> set xs. has_node G v"
  shows "length xs \<le> length (adj G)"
proof -
  from assms(2) have "set xs \<subseteq> fst ` set (adj G)" by (auto simp: has_node_iff)
  then have "card (set xs) \<le> card (fst ` set (adj G))" by (intro card_mono) simp_all
  also have "\<dots> \<le> card (set (adj G))" by (rule card_image_le) simp
  also have "\<dots> \<le> length (adj G)" by (rule card_length)
  finally show ?thesis using assms(1) by (simp add: distinct_card)
qed

lemma entry_weight_pos: "0 < entry_weight G e"
  by (simp add: entry_weight_def branching_def)

lemma search_inv_pop:
  assumes "search_inv G s st" "heappop (queue st) = Some (cur, q)"
  shows "search_inv G s (st\<lparr>queue := q\<rparr>)" and "entry_ok G s st cur"
    and "potential G st = entry_weight G cur + potential G (st\<lparr>queue := q\<rparr>)"
    and "\<exists>p. e_parent cur = Some p \<and> has_edge G p (e_node cur) \<and> p \<in> dom (explored st)"
proof -
  note p = heappop_Some[OF assms(2)]
  from assms(1) have i: "seq_inv st" "path_inv G s st" "\<forall>e \<in> set (queue st). entry_ok G s st e"
    "\<forall>e \<in> set (queue st). \<forall>e' \<in> set (queue st).
        e_node e = e_node e' \<and> e_dist e = e_dist e' \<longrightarrow> e = e'"
    "explored st s = Some None" "\<forall>n \<in> dom (explored st). has_node G n"
    unfolding search_inv_def by simp_all
  have sub: "set q \<subseteq> set (queue st)" using p(2) set_remove1_subset by fastforce
  show "search_inv G s (st\<lparr>queue := q\<rparr>)"
    unfolding search_inv_def
    using seq_inv_pop[OF i(1) assms(2)] path_inv_pop[OF i(2) assms(2)] i(3,4,5,6) sub
    by (simp add: subset_iff)
  show ok: "entry_ok G s st cur" using i(3) p(1) by blast
  show "potential G st = entry_weight G cur + potential G (st\<lparr>queue := q\<rparr>)"
    using sum_list_map_remove1[OF p(1), of "entry_weight G"] p(2) by (simp add: potential_def)
  from ok obtain pa where "e_parent cur = Some pa" unfolding entry_ok_def entry_shape_def by blast
  with path_inv_popped[OF i(2) assms(2)]
  show "\<exists>p. e_parent cur = Some p \<and> has_edge G p (e_node cur) \<and> p \<in> dom (explored st)" by simp
qed

lemma visit_ok:
  fixes G :: "'n graph"
  assumes inv: "search_inv G s st" and ok: "entry_ok G s st cur"
    and par: "e_parent cur = Some p" "has_edge G p (e_node cur)" "p \<in> dom (explored st)"
    and ex: "explored st (e_node cur) \<noteq> Some None"
    and closed: "closed_graph G" and w: "nonneg_costs G w" and h: "total_heuristic G t h"
  shows "\<exists>st'. visit G t h w cur st = Inr st' \<and> search_inv G s st'
           \<and> potential G st' < potential G st + entry_weight G cur"
proof -
  let ?st2 = "st\<lparr>explored := (explored st)(e_node cur \<mapsto> e_parent cur)\<rparr>"
  from inv have i: "seq_inv st" "path_inv G s st" "\<forall>e \<in> set (queue st). entry_ok G s st e"
    "\<forall>e \<in> set (queue st). \<forall>e' \<in> set (queue st).
        e_node e = e_node e' \<and> e_dist e = e_dist e' \<longrightarrow> e = e'"
    "explored st s = Some None" "\<forall>n \<in> dom (explored st). has_node G n"
    unfolding search_inv_def by simp_all
  from ok have sh: "e_path cur \<noteq> []" "last (e_path cur) = e_node cur"
    "e_node cur \<noteq> s \<longrightarrow> distinct (e_path cur)" "\<forall>v \<in> set (e_path cur). has_node G v"
    "0 \<le> e_dist cur" "prev_edge_of (e_path cur) (e_node cur) = Some (p, e_node cur)"
    "covered s st (e_path cur) (e_dist cur)"
    unfolding entry_ok_def entry_shape_def using par(1) by auto
  from ex i(5) have ns: "e_node cur \<noteq> s" by auto
  from sh(1,2,4) have hn: "has_node G (e_node cur)" using last_in_set by metis
  have pi: "path_inv G s ?st2"
    by (rule path_inv_set_explored[OF i(2) _ ex]) (simp add: par)
  have inv2: "search_inv G s ?st2"
    unfolding search_inv_def
    using i(1,3,4,5,6) pi ns hn par(1) by (simp add: seq_inv_explored)
  have vis2: "visiting G s ?st2 cur"
    unfolding visiting_def using sh ns par(2) by (simp add: prev_ok_def)
  from has_node_neighbors[OF hn] obtain nbrs :: "('n \<times> attrs) list" where
    n: "neighbors G (e_node cur) = Inr nbrs" "length nbrs + 2 \<le> branching G"
    by blast
  have edges: "\<forall>x \<in> set (map fst nbrs). has_edge G (e_node cur) x"
    using has_edge_neighbors[OF n(1)] by simp
  from for_each_relax_ok[OF inv2 vis2 edges closed w h] obtain st' where
    f: "for_each (relax G t h w cur) (map fst nbrs) ?st2 = Inr st'" "search_inv G s st'"
    "potential G st' \<le> potential G ?st2
        + length (map fst nbrs) * branching G ^ (length (adj G) - length (e_path cur))"
    by blast
  have L: "length (e_path cur) \<le> length (adj G)"
    using path_length_bound[OF _ sh(4)] sh(3) ns by simp
  then have "Suc (length (adj G)) - length (e_path cur) = Suc (length (adj G) - length (e_path cur))"
    by simp
  then have ew: "entry_weight G cur = branching G * branching G ^ (length (adj G) - length (e_path cur))"
    by (simp add: entry_weight_def)
  have p2: "potential G ?st2 = potential G st" by (simp add: potential_def)
  have lt: "length (map fst nbrs) * branching G ^ (length (adj G) - length (e_path cur))
        < branching G * branching G ^ (length (adj G) - length (e_path cur))"
  proof (rule mult_strict_right_mono)
    show "length (map fst nbrs) < branching G" using n(2) by simp
    show "0 < branching G ^ (length (adj G) - length (e_path cur))" by (simp add: branching_def)
  qed
  from f(3) lt ew p2 have "potential G st' < potential G st + entry_weight G cur"
    by linarith
  with f(1,2) n(1) show ?thesis by (auto simp: visit_def)
qed

lemma search_inv_step:
  assumes inv: "search_inv G s st"
    and closed: "closed_graph G" and w: "nonneg_costs G w" and h: "total_heuristic G t h"
  shows "astar_step G t h w st = Exhausted
       \<or> (\<exists>cur st1. astar_step G t h w st = Found cur st1)
       \<or> (\<exists>st'. astar_step G t h w st = Continue st' \<and> search_inv G s st'
             \<and> potential G st' < potential G st)"
proof (cases "heappop (queue st)")
  case None
  then show ?thesis by (simp add: astar_step_def)
next
  case (Some a)
  obtain cur q where a: "a = (cur, q)" by (cases a)
  note pop = Some[unfolded a]
  let ?st1 = "st\<lparr>queue := q\<rparr>"
  note sp = search_inv_pop[OF inv pop]
  have step: "astar_step G t h w st = loop_body G t h w cur ?st1"
    using pop by (simp add: astar_step_def)
  have less1: "potential G ?st1 < potential G st"
    using sp(3) entry_weight_pos[of G cur] by simp
  from sp(2) obtain qc hv where en: "enqueued st (e_node cur) = Some (qc, hv)"
    unfolding entry_ok_def by blast
  from sp(4) obtain p where par: "e_parent cur = Some p" "has_edge G p (e_node cur)"
    "p \<in> dom (explored st)" by blast
  have visit: "\<exists>st'. visit G t h w cur ?st1 = Inr st' \<and> search_inv G s st'
           \<and> potential G st' < potential G st"
    if "explored st (e_node cur) \<noteq> Some None"
  proof -
    have "\<exists>st'. visit G t h w cur ?st1 = Inr st' \<and> search_inv G s st'
           \<and> potential G st' < potential G ?st1 + entry_weight G cur"
    proof (rule visit_ok[OF sp(1) _ par(1,2) _ _ closed w h])
      show "entry_ok G s ?st1 cur" using sp(2) by simp
      show "p \<in> dom (explored ?st1)" using par(3) by simp
      show "explored ?st1 (e_node cur) \<noteq> Some None" using that by simp
    qed
    with sp(3) show ?thesis by auto
  qed
  show ?thesis
  proof (cases "e_node cur = t")
    case True
    then show ?thesis using step by (simp add: loop_body_def)
  next
    case False
    show ?thesis
    proof (cases "explored st (e_node cur)")
      case None
      with visit obtain st' where "visit G t h w cur ?st1 = Inr st'" "search_inv G s st'"
        "potential G st' < potential G st" by auto
      with None False step show ?thesis by (simp add: loop_body_def)
    next
      case (Some x)
      show ?thesis
      proof (cases x)
        case None
        with Some False step sp(1) less1 show ?thesis by (simp add: loop_body_def)
      next
        case (Some p')
        show ?thesis
        proof (cases "qc < e_dist cur")
          case True
          with Some \<open>explored st (e_node cur) = Some x\<close> False step sp(1) less1 en
          show ?thesis by (simp add: loop_body_def)
        next
          case nl: False
          from Some \<open>explored st (e_node cur) = Some x\<close> visit
          obtain st' where "visit G t h w cur ?st1 = Inr st'" "search_inv G s st'"
            "potential G st' < potential G st" by auto
          with Some \<open>explored st (e_node cur) = Some x\<close> False step en nl
          show ?thesis by (simp add: loop_body_def)
        qed
      qed
    qed
  qed
qed

lemma first_step_ok:
  fixes G :: "'n graph"
  assumes "has_node G s" "s \<noteq> t"
    and closed: "closed_graph G" and w: "nonneg_costs G w" and h: "total_heuristic G t h"
  shows "\<exists>st1. astar_step G t h w (init_state s) = Continue st1 \<and> search_inv G s st1"
proof -
  let ?init = "\<lparr>e_priority = 0, e_seq = 0, e_node = s, e_dist = 0, e_parent = None,
                 e_path = [s]\<rparr> :: 'n entry"
  let ?st0 = "\<lparr>queue = [], counter = 1, enqueued = Map.empty, explored = [s \<mapsto> None]\<rparr>
                 :: 'n state"
  have inv0: "search_inv G s ?st0"
    unfolding search_inv_def using assms(1) by (simp add: seq_inv_def path_inv_def)
  have vis0: "visiting G s ?st0 ?init"
    unfolding visiting_def using assms(1)
    by (simp add: covered_def prev_ok_def prev_edge_of_def)
  from has_node_neighbors[OF assms(1)] obtain nbrs :: "('n \<times> attrs) list" where
    n: "neighbors G s = Inr nbrs" by blast
  have edges: "\<forall>x \<in> set (map fst nbrs). has_edge G (e_node ?init) x"
    using has_edge_neighbors[OF n] by simp
  from for_each_relax_ok[OF inv0 vis0 edges closed w h] obtain st1 where
    f: "for_each (relax G t h w ?init) (map fst nbrs) ?st0 = Inr st1" "search_inv G s st1"
    by blast
  have "astar_step G t h w (init_state s) = Continue st1"
    using f(1) n assms(2)
    by (simp add: astar_step_def loop_body_def heappop_def init_state_def visit_def)
  with f(2) show ?thesis by blast
qed

section \<open>A reachable target is not missed\<close>

lemma for_each_post:
  assumes "for_each f xs st = Inr st'"
    and "\<And>x s s'. f x s = Inr s' \<Longrightarrow> Q x s'"
    and "\<And>x y s s'. f y s = Inr s' \<Longrightarrow> Q x s \<Longrightarrow> Q x s'"
  shows "\<forall>x \<in> set xs. Q x st'"
  using assms(1)
proof (induction xs arbitrary: st)
  case Nil
  then show ?case by simp
next
  case (Cons a xs)
  from Cons.prems obtain s1 where 1: "f a st = Inr s1" and 2: "for_each f xs s1 = Inr st'"
    by (auto split: sum.splits)
  have "Q a st'"
    by (rule for_each_induct[OF 2, where P = "Q a"]) (use assms(2)[OF 1] assms(3) in auto)
  with Cons.IH[OF 2] show ?case by simp
qed

lemma relax_enqueued:
  assumes "relax G t h w cur nb st = Inr st'"
  shows "enqueued st' nb \<noteq> None" and "enqueued st x \<noteq> None \<Longrightarrow> enqueued st' x \<noteq> None"
  using assms by (cases rule: relax_cases; simp)+

lemma reach_inv_init: "reach_inv G s t (init_state s)"
  by (simp add: reach_inv_def init_state_def)

lemma reach_inv_empty:
  assumes "reach_inv G s t st" "queue st = []"
  shows "\<not> reachable G s t"
proof
  assume "reachable G s t"
  then have r: "(s, t) \<in> {(u, v). has_edge G u v}\<^sup>*" by (simp add: reachable_def)
  from assms have i: "\<forall>n. enqueued st n \<noteq> None \<longrightarrow> n \<in> dom (explored st)"
    "\<forall>n m. n \<in> dom (explored st) \<longrightarrow> has_edge G n m \<longrightarrow> enqueued st m \<noteq> None"
    "s \<in> dom (explored st)" "t \<notin> dom (explored st)"
    unfolding reach_inv_def by auto
  from r have "t \<in> dom (explored st)"
  proof (induction rule: rtrancl_induct)
    case base
    then show ?case by (rule i(3))
  next
    case (step y z)
    then show ?case using i(1,2) by blast
  qed
  with i(4) show False by simp
qed

lemma reach_inv_skip:
  assumes "reach_inv G s t st" "heappop (queue st) = Some (cur, q)"
    "e_node cur \<in> dom (explored st)"
  shows "reach_inv G s t (st\<lparr>queue := q\<rparr>)"
proof -
  note p = heappop_Some[OF assms(2)]
  have keep: "\<exists>e' \<in> set q. e_node e' = n" if "e \<in> set (queue st)" "e_node e = n" "n \<notin> dom (explored st)" for e n
  proof -
    from that assms(3) have "e \<noteq> cur" by auto
    with that(1) p(2) have "e \<in> set q" by simp
    with that(2) show ?thesis by blast
  qed
  from assms(1) have i:
    "\<And>n. enqueued st n \<noteq> None \<Longrightarrow> n \<in> dom (explored st) \<or> (\<exists>e \<in> set (queue st). e_node e = n)"
    "\<And>n m. n \<in> dom (explored st) \<Longrightarrow> has_edge G n m \<Longrightarrow> enqueued st m \<noteq> None"
    "s \<in> dom (explored st) \<or> (\<exists>e \<in> set (queue st). e_node e = s)"
    "t \<notin> dom (explored st)"
    unfolding reach_inv_def by blast+
  show ?thesis
    unfolding reach_inv_def
  proof (intro conjI allI impI)
    fix n assume "enqueued (st\<lparr>queue := q\<rparr>) n \<noteq> None"
    then have "enqueued st n \<noteq> None" by simp
    from i(1)[OF this] keep[of _ n]
    show "n \<in> dom (explored (st\<lparr>queue := q\<rparr>)) \<or> (\<exists>e \<in> set (queue (st\<lparr>queue := q\<rparr>)). e_node e = n)"
      by (cases "n \<in> dom (explored st)") auto
  next
    fix n m assume "n \<in> dom (explored (st\<lparr>queue := q\<rparr>))" "has_edge G n m"
    then show "enqueued (st\<lparr>queue := q\<rparr>) m \<noteq> None" using i(2)[of n m] by simp
  next
    from i(3) keep[of _ s]
    show "s \<in> dom (explored (st\<lparr>queue := q\<rparr>)) \<or> (\<exists>e \<in> set (queue (st\<lparr>queue := q\<rparr>)). e_node e = s)"
      by (cases "s \<in> dom (explored st)") auto
  next
    show "t \<notin> dom (explored (st\<lparr>queue := q\<rparr>))" using i(4) by simp
  qed
qed

lemma reach_inv_but_start:
  assumes "reach_inv G s t st" "heappop (queue st) = Some (cur, q)" "e_node cur \<noteq> t"
  shows "reach_inv_but G s t (e_node cur)
           (st\<lparr>queue := q, explored := (explored st)(e_node cur \<mapsto> e_parent cur)\<rparr>)"
    (is "reach_inv_but G s t _ ?st2")
proof -
  note p = heappop_Some[OF assms(2)]
  have keep: "\<exists>e' \<in> set q. e_node e' = n" if "e \<in> set (queue st)" "e_node e = n" "n \<noteq> e_node cur" for e n
  proof -
    from that have "e \<noteq> cur" by auto
    with that(1) p(2) have "e \<in> set q" by simp
    with that(2) show ?thesis by blast
  qed
  from assms(1) have i:
    "\<And>n. enqueued st n \<noteq> None \<Longrightarrow> n \<in> dom (explored st) \<or> (\<exists>e \<in> set (queue st). e_node e = n)"
    "\<And>n m. n \<in> dom (explored st) \<Longrightarrow> has_edge G n m \<Longrightarrow> enqueued st m \<noteq> None"
    "s \<in> dom (explored st) \<or> (\<exists>e \<in> set (queue st). e_node e = s)"
    "t \<notin> dom (explored st)"
    unfolding reach_inv_def by blast+
  show ?thesis
    unfolding reach_inv_but_def
  proof (intro conjI allI impI)
    fix n assume "enqueued ?st2 n \<noteq> None"
    then have "enqueued st n \<noteq> None" by simp
    from i(1)[OF this] keep[of _ n]
    show "n \<in> dom (explored ?st2) \<or> (\<exists>e \<in> set (queue ?st2). e_node e = n)"
      by (cases "n = e_node cur") auto
  next
    fix n m assume "n \<in> dom (explored ?st2)" "n \<noteq> e_node cur" "has_edge G n m"
    then show "enqueued ?st2 m \<noteq> None" using i(2)[of n m] by simp
  next
    from i(3) keep[of _ s]
    show "s \<in> dom (explored ?st2) \<or> (\<exists>e \<in> set (queue ?st2). e_node e = s)"
      by (cases "s = e_node cur") auto
  next
    show "t \<notin> dom (explored ?st2)" using i(4) assms(3) by simp
  qed
qed

lemma reach_inv_but_push:
  assumes "reach_inv_but G s t c st"
  shows "reach_inv_but G s t c (push_neighbor cur nb ncost hv st)"
proof -
  from assms have i:
    "\<And>n. enqueued st n \<noteq> None \<Longrightarrow> n \<in> dom (explored st) \<or> (\<exists>e \<in> set (queue st). e_node e = n)"
    "\<And>n m. n \<in> dom (explored st) \<Longrightarrow> n \<noteq> c \<Longrightarrow> has_edge G n m \<Longrightarrow> enqueued st m \<noteq> None"
    "s \<in> dom (explored st) \<or> (\<exists>e \<in> set (queue st). e_node e = s)"
    "t \<notin> dom (explored st)"
    unfolding reach_inv_but_def by blast+
  let ?st' = "push_neighbor cur nb ncost hv st"
  show ?thesis
    unfolding reach_inv_but_def
  proof (intro conjI allI impI)
    fix n assume a: "enqueued ?st' n \<noteq> None"
    show "n \<in> dom (explored ?st') \<or> (\<exists>e \<in> set (queue ?st'). e_node e = n)"
    proof (cases "n = nb")
      case True
      then show ?thesis by simp
    next
      case False
      with a have "enqueued st n \<noteq> None" by simp
      from i(1)[OF this] show ?thesis by auto
    qed
  next
    fix n m assume "n \<in> dom (explored ?st')" "n \<noteq> c" "has_edge G n m"
    then show "enqueued ?st' m \<noteq> None" using i(2)[of n m] by simp
  next
    from i(3) show "s \<in> dom (explored ?st') \<or> (\<exists>e \<in> set (queue ?st'). e_node e = s)"
      by auto
  next
    show "t \<notin> dom (explored ?st')" using i(4) by simp
  qed
qed

lemma reach_inv_but_relax:
  assumes "reach_inv_but G s t c st" "relax G t h w cur nb st = Inr st'"
  shows "reach_inv_but G s t c st'"
  using assms(2) by (cases rule: relax_cases) (simp_all add: assms(1) reach_inv_but_push)

lemma reach_inv_visit:
  fixes G :: "'n graph"
  assumes "reach_inv G s t st" "heappop (queue st) = Some (cur, q)" "e_node cur \<noteq> t"
    "visit G t h w cur (st\<lparr>queue := q\<rparr>) = Inr st'"
  shows "reach_inv G s t st'"
proof -
  let ?st2 = "st\<lparr>queue := q, explored := (explored st)(e_node cur \<mapsto> e_parent cur)\<rparr>"
  from assms(4) obtain nbrs :: "('n \<times> attrs) list" where
    n: "neighbors G (e_node cur) = Inr nbrs" and
    f: "for_each (relax G t h w cur) (map fst nbrs) ?st2 = Inr st'"
    by (rule visit_Inr) simp
  have b: "reach_inv_but G s t (e_node cur) st'"
    by (rule for_each_induct[OF f, where P = "reach_inv_but G s t (e_node cur)"])
       (use reach_inv_but_start[OF assms(1-3)] reach_inv_but_relax in auto)
  have e: "\<forall>x \<in> set (map fst nbrs). enqueued st' x \<noteq> None"
  proof (rule for_each_post[OF f])
    fix x s1 s2 assume "relax G t h w cur x s1 = Inr s2"
    then show "enqueued s2 x \<noteq> None" by (rule relax_enqueued(1))
  next
    fix x y s1 s2 assume "relax G t h w cur y s1 = Inr s2" "enqueued s1 x \<noteq> None"
    then show "enqueued s2 x \<noteq> None" by (rule relax_enqueued(2))
  qed
  from b have i:
    "\<And>n. enqueued st' n \<noteq> None \<Longrightarrow> n \<in> dom (explored st') \<or> (\<exists>e \<in> set (queue st'). e_node e = n)"
    "\<And>n m. n \<in> dom (explored st') \<Longrightarrow> n \<noteq> e_node cur \<Longrightarrow> has_edge G n m \<Longrightarrow> enqueued st' m \<noteq> None"
    "s \<in> dom (explored st') \<or> (\<exists>e \<in> set (queue st'). e_node e = s)"
    "t \<notin> dom (explored st')"
    unfolding reach_inv_but_def by blast+
  show ?thesis
    unfolding reach_inv_def
  proof (intro conjI allI impI)
    fix n m assume a: "n \<in> dom (explored st')" "has_edge G n m"
    show "enqueued st' m \<noteq> None"
    proof (cases "n = e_node cur")
      case True
      with a(2) has_edge_neighbors[OF n, of m] e show ?thesis by auto
    next
      case False
      with i(2)[OF a(1) _ a(2)] show ?thesis by simp
    qed
  qed (use i in auto)
qed

lemma reach_inv_step:
  assumes "reach_inv G s t st" "astar_step G t h w st = Continue st'"
  shows "reach_inv G s t st'"
  using assms(2)
proof (cases rule: astar_step_Continue)
  case (skip_source cur q)
  then show ?thesis using reach_inv_skip[OF assms(1), of cur q] by auto
next
  case (skip_stale cur q p qcost hv)
  then show ?thesis using reach_inv_skip[OF assms(1), of cur q] by auto
next
  case (revisit cur q p qcost hv)
  then show ?thesis using reach_inv_visit[OF assms(1)] by blast
next
  case (first_visit cur q)
  then show ?thesis using reach_inv_visit[OF assms(1)] by blast
qed

section \<open>Non-negative costs: the walk back ends\<close>

lemma walk_back_chain:
  assumes "back_chain ex n path"
  shows "walk_back ex (Some n) acc = Some (Inr (path @ rev acc))"
  using assms
proof (induction arbitrary: acc rule: back_chain.induct)
  case (root n)
  then show ?case
    by (subst walk_back.simps, simp, subst walk_back.simps, simp)
next
  case (link n p path)
  from link.IH[of "acc @ [n]"] link.hyps(1) show ?case
    by (subst walk_back.simps) simp
qed

lemma back_chain_nodes:
  assumes "back_chain ex n path" "\<forall>n p. ex n = Some (Some p) \<longrightarrow> g p \<le> g n"
  shows "\<forall>x \<in> set path. x \<in> dom ex \<and> g x \<le> (g n :: real)"
  using assms
proof (induction rule: back_chain.induct)
  case (root n)
  then show ?case by auto
next
  case (link n p path)
  then have "g p \<le> g n" by blast
  with link show ?case by fastforce
qed

lemma back_chain_update_off:
  assumes "back_chain ex n path" "m \<notin> set path"
  shows "back_chain (ex(m \<mapsto> x)) n path"
  using assms
proof (induction rule: back_chain.induct)
  case (root n)
  then have "(ex(m \<mapsto> x)) n = Some None" by auto
  from back_chain.root[of "ex(m \<mapsto> x)" n, OF this] show ?case .
next
  case (link n p path)
  from link.prems have m: "m \<noteq> n" "m \<notin> set path" by simp_all
  from link.IH[OF m(2)] have c: "back_chain (ex(m \<mapsto> x)) p path" .
  from link.hyps(1) m(1) have e: "(ex(m \<mapsto> x)) n = Some (Some p)" by simp
  show ?case by (rule back_chain.link[OF e c])
qed

lemma back_chain_update_through:
  assumes "back_chain ex n path" "back_chain (ex(m \<mapsto> x)) m pm"
  shows "\<exists>path'. back_chain (ex(m \<mapsto> x)) n path'"
  using assms
proof (induction rule: back_chain.induct)
  case (root n)
  show ?case
  proof (cases "n = m")
    case True
    with root.prems show ?thesis by blast
  next
    case False
    with root.hyps have "(ex(m \<mapsto> x)) n = Some None" by simp
    from back_chain.root[of "ex(m \<mapsto> x)" n, OF this] show ?thesis by blast
  qed
next
  case (link n p path)
  show ?case
  proof (cases "n = m")
    case True
    with link.prems show ?thesis by blast
  next
    case False
    from link.IH[OF link.prems] obtain path' where "back_chain (ex(m \<mapsto> x)) p path'" by blast
    moreover from False link.hyps(1) have "(ex(m \<mapsto> x)) n = Some (Some p)" by simp
    ultimately have "back_chain (ex(m \<mapsto> x)) n (path' @ [n])"
      using back_chain.link[of "ex(m \<mapsto> x)" n p path'] by simp
    then show ?thesis by blast
  qed
qed

lemma rank_factsD:
  assumes "rank_facts st g"
  shows "\<And>n p. explored st n = Some (Some p) \<Longrightarrow> g p \<le> g n"
    and "\<And>e p. e \<in> set (queue st) \<Longrightarrow> e_parent e = Some p \<Longrightarrow> g p \<le> e_dist e"
    and "\<And>n p. explored st n = Some (Some p) \<Longrightarrow> \<exists>q hv. enqueued st n = Some (q, hv) \<and> q \<le> g n"
    and "\<And>e p q hv. e \<in> set (queue st) \<Longrightarrow> explored st (e_node e) = Some (Some p) \<Longrightarrow>
           enqueued st (e_node e) = Some (q, hv) \<Longrightarrow> e_dist e \<le> q \<Longrightarrow> e_dist e < g (e_node e)"
    and "\<And>n. n \<in> dom (explored st) \<Longrightarrow> \<exists>path. back_chain (explored st) n path"
  using assms unfolding rank_facts_def by blast+

lemma rank_factsI:
  assumes "\<And>n p. explored st n = Some (Some p) \<Longrightarrow> g p \<le> g n"
    and "\<And>e p. e \<in> set (queue st) \<Longrightarrow> e_parent e = Some p \<Longrightarrow> g p \<le> e_dist e"
    and "\<And>n p. explored st n = Some (Some p) \<Longrightarrow> \<exists>q hv. enqueued st n = Some (q, hv) \<and> q \<le> g n"
    and "\<And>e p q hv. e \<in> set (queue st) \<Longrightarrow> explored st (e_node e) = Some (Some p) \<Longrightarrow>
           enqueued st (e_node e) = Some (q, hv) \<Longrightarrow> e_dist e \<le> q \<Longrightarrow> e_dist e < g (e_node e)"
    and "\<And>n. n \<in> dom (explored st) \<Longrightarrow> \<exists>path. back_chain (explored st) n path"
  shows "rank_facts st g"
  unfolding rank_facts_def using assms by blast

lemma rank_facts_pop:
  assumes "rank_facts st g" "set q \<subseteq> set (queue st)"
  shows "rank_facts (st\<lparr>queue := q\<rparr>) g"
proof (rule rank_factsI)
  note d = rank_factsD[OF assms(1)]
  show "\<And>n p. explored (st\<lparr>queue := q\<rparr>) n = Some (Some p) \<Longrightarrow> g p \<le> g n"
    using d(1) by simp
  show "\<And>e p. e \<in> set (queue (st\<lparr>queue := q\<rparr>)) \<Longrightarrow> e_parent e = Some p \<Longrightarrow> g p \<le> e_dist e"
    using d(2) assms(2) by auto
  show "\<And>n p. explored (st\<lparr>queue := q\<rparr>) n = Some (Some p) \<Longrightarrow>
          \<exists>qq hv. enqueued (st\<lparr>queue := q\<rparr>) n = Some (qq, hv) \<and> qq \<le> g n"
    using d(3) by simp
  show "\<And>e p qq hv. e \<in> set (queue (st\<lparr>queue := q\<rparr>)) \<Longrightarrow>
          explored (st\<lparr>queue := q\<rparr>) (e_node e) = Some (Some p) \<Longrightarrow>
          enqueued (st\<lparr>queue := q\<rparr>) (e_node e) = Some (qq, hv) \<Longrightarrow> e_dist e \<le> qq \<Longrightarrow>
          e_dist e < g (e_node e)"
    using d(4) assms(2) by auto
  show "\<And>n. n \<in> dom (explored (st\<lparr>queue := q\<rparr>)) \<Longrightarrow>
          \<exists>path. back_chain (explored (st\<lparr>queue := q\<rparr>)) n path"
    using d(5) by simp
qed

lemma rank_facts_push:
  assumes r: "rank_facts st g" and cur: "g (e_node cur) \<le> e_dist cur" and c: "0 \<le> c"
    and ok: "\<forall>e \<in> set (queue st). entry_ok G s st e"
    and new: "enqueued st nb = None \<or> (\<exists>q hv'. enqueued st nb = Some (q, hv') \<and> e_dist cur + c < q)"
  shows "rank_facts (push_neighbor cur nb (e_dist cur + c) hv st) g"
    (is "rank_facts ?st' g")
proof (rule rank_factsI)
  note d = rank_factsD[OF r]
  show "\<And>n p. explored ?st' n = Some (Some p) \<Longrightarrow> g p \<le> g n"
    using d(1) by simp
  show "g p \<le> e_dist e" if "e \<in> set (queue ?st')" "e_parent e = Some p" for e p
  proof (cases "e \<in> set (queue st)")
    case True
    with d(2) that(2) show ?thesis by blast
  next
    case False
    with that cur c show ?thesis by auto
  qed
  show "\<exists>q hv'. enqueued ?st' n = Some (q, hv') \<and> q \<le> g n"
    if "explored ?st' n = Some (Some p)" for n p
  proof -
    from that d(3)[of n p] obtain q hv0 where q: "enqueued st n = Some (q, hv0)" "q \<le> g n"
      by auto
    show ?thesis
    proof (cases "n = nb")
      case True
      with q new have "e_dist cur + c \<le> g n" by auto
      with True show ?thesis by simp
    next
      case False
      with q show ?thesis by simp
    qed
  qed
  show "e_dist e < g (e_node e)"
    if a: "e \<in> set (queue ?st')" "explored ?st' (e_node e) = Some (Some p)"
      "enqueued ?st' (e_node e) = Some (q, hv0)" "e_dist e \<le> q" for e p q hv0
  proof (cases "e \<in> set (queue st)")
    case True
    show ?thesis
    proof (cases "e_node e = nb")
      case nb: True
      from ok True obtain q0 h0 where q0: "enqueued st (e_node e) = Some (q0, h0)" "q0 \<le> e_dist e"
        unfolding entry_ok_def by blast
      with nb new a(3,4) show ?thesis by auto
    next
      case False
      with a have "enqueued st (e_node e) = Some (q, hv0)" "explored st (e_node e) = Some (Some p)"
        by simp_all
      from d(4)[OF True this(2,1) a(4)] show ?thesis .
    qed
  next
    case False
    with a(1) have e: "e_node e = nb" "e_dist e = e_dist cur + c" by auto
    from a(2) e(1) d(3)[of nb p] obtain q0 h0 where q0: "enqueued st nb = Some (q0, h0)" "q0 \<le> g nb"
      by auto
    with new e show ?thesis by auto
  qed
  show "\<And>n. n \<in> dom (explored ?st') \<Longrightarrow> \<exists>path. back_chain (explored ?st') n path"
    using d(5) by simp
qed

lemma rank_facts_set_explored:
  assumes r: "rank_facts st g" and inv: "search_inv G s st"
    and pop: "heappop (queue st) = Some (cur, q)"
    and vis: "explored st (e_node cur) \<noteq> Some None"
    and fresh: "\<And>p0. explored st (e_node cur) = Some (Some p0) \<Longrightarrow>
                  \<exists>qc hv. enqueued st (e_node cur) = Some (qc, hv) \<and> e_dist cur \<le> qc"
  shows "rank_facts (st\<lparr>queue := q, explored := (explored st)(e_node cur \<mapsto> e_parent cur)\<rparr>)
           (g(e_node cur := e_dist cur))"
    (is "rank_facts ?st2 ?g")
proof -
  let ?n = "e_node cur" and ?d = "e_dist cur"
  note d = rank_factsD[OF r]
  note hp = heappop_Some[OF pop]
  note sp = search_inv_pop[OF inv pop]
  from inv have i: "seq_inv st" "path_inv G s st" "\<forall>e \<in> set (queue st). entry_ok G s st e"
    "\<forall>e \<in> set (queue st). \<forall>e' \<in> set (queue st).
        e_node e = e_node e' \<and> e_dist e = e_dist e' \<longrightarrow> e = e'"
    unfolding search_inv_def by simp_all
  from i(1) have dq: "distinct (queue st)" by (simp add: seq_inv_def distinct_map)
  with hp(2) have sq: "set q = set (queue st) - {cur}" by (simp add: set_remove1_eq)
  from sp(4) obtain p where par: "e_parent cur = Some p" "p \<in> dom (explored st)" by blast
  from sp(2) obtain qc hv where en: "enqueued st ?n = Some (qc, hv)" "qc \<le> ?d"
    unfolding entry_ok_def by blast
  have gp: "g p \<le> ?d" using d(2)[OF hp(1) par(1)] .
  have dec: "?d < g ?n" if "?n \<in> dom (explored st)"
  proof -
    from that vis obtain p0 where p0: "explored st ?n = Some (Some p0)" by (cases "explored st ?n") auto
    from fresh[OF p0] en have "?d \<le> qc" by simp
    from d(4)[OF hp(1) p0 en(1) this] show ?thesis .
  qed
  have pn: "p \<noteq> ?n"
  proof
    assume "p = ?n"
    with par(2) dec gp show False by auto
  qed
  from i(2) have pe: "\<And>e x. e \<in> set (queue st) \<Longrightarrow> e_parent e = Some x \<Longrightarrow> x \<in> dom (explored st)"
    and px: "\<And>m x. explored st m = Some (Some x) \<Longrightarrow> x \<in> dom (explored st)"
    unfolding path_inv_def by (force, blast)
  show ?thesis
  proof (rule rank_factsI)
    show "?g x \<le> ?g m" if "explored ?st2 m = Some (Some x)" for m x
    proof (cases "m = ?n")
      case True
      with that par(1) have "x = p" by simp
      with True pn gp show ?thesis by simp
    next
      case False
      with that have e: "explored st m = Some (Some x)" by simp
      show ?thesis
      proof (cases "x = ?n")
        case True
        with px[OF e] dec d(1)[OF e] False show ?thesis by simp
      next
        case x: False
        with False d(1)[OF e] show ?thesis by simp
      qed
    qed
    show "?g x \<le> e_dist e" if "e \<in> set (queue ?st2)" "e_parent e = Some x" for e x
    proof -
      from that(1) sq have e: "e \<in> set (queue st)" by simp
      show ?thesis
      proof (cases "x = ?n")
        case True
        with pe[OF e that(2)] dec d(2)[OF e that(2)] show ?thesis by simp
      next
        case False
        with d(2)[OF e that(2)] show ?thesis by simp
      qed
    qed
    show "\<exists>qq hh. enqueued ?st2 m = Some (qq, hh) \<and> qq \<le> ?g m"
      if "explored ?st2 m = Some (Some x)" for m x
    proof (cases "m = ?n")
      case True
      with en show ?thesis by simp
    next
      case False
      with that d(3)[of m x] show ?thesis by simp
    qed
    show "e_dist e < ?g (e_node e)"
      if a: "e \<in> set (queue ?st2)" "explored ?st2 (e_node e) = Some (Some x)"
        "enqueued ?st2 (e_node e) = Some (qq, hh)" "e_dist e \<le> qq" for e x qq hh
    proof -
      from a(1) sq have e: "e \<in> set (queue st)" "e \<noteq> cur" by simp_all
      show ?thesis
      proof (cases "e_node e = ?n")
        case True
        with a(3,4) en have le: "e_dist e \<le> ?d" by simp
        have "e_dist e \<noteq> ?d"
        proof
          assume "e_dist e = ?d"
          with True i(4) e(1) hp(1) have "e = cur" by blast
          with e(2) show False by simp
        qed
        with le True show ?thesis by simp
      next
        case False
        with a have "explored st (e_node e) = Some (Some x)" "enqueued st (e_node e) = Some (qq, hh)"
          by simp_all
        from d(4)[OF e(1) this a(4)] False show ?thesis by simp
      qed
    qed
    show "\<exists>path. back_chain (explored ?st2) m path" if "m \<in> dom (explored ?st2)" for m
    proof -
      from d(5)[OF par(2)] obtain pp where pp: "back_chain (explored st) p pp" by blast
      have "?n \<notin> set pp"
      proof
        assume "?n \<in> set pp"
        with back_chain_nodes[OF pp, of g] d(1) have "?n \<in> dom (explored st)" "g ?n \<le> g p"
          by blast+
        with dec gp show False by auto
      qed
      from back_chain_update_off[OF pp this, of "e_parent cur"]
      have "back_chain (explored ?st2) p pp" by simp
      moreover have "explored ?st2 ?n = Some (Some p)" using par(1) by simp
      ultimately have cn: "back_chain (explored ?st2) ?n (pp @ [?n])"
        by (rule back_chain.link[rotated])
      show ?thesis
      proof (cases "m = ?n")
        case True
        with cn show ?thesis by blast
      next
        case False
        with that have "m \<in> dom (explored st)" by auto
        from d(5)[OF this] obtain pm where "back_chain (explored st) m pm" by blast
        from back_chain_update_through[OF this, of ?n "e_parent cur" "pp @ [?n]"] cn
        show ?thesis by simp
      qed
    qed
  qed
qed

lemma visit_start:
  assumes inv: "search_inv G s st" and ok: "entry_ok G s st cur"
    and par: "e_parent cur = Some p" "has_edge G p (e_node cur)" "p \<in> dom (explored st)"
    and ex: "explored st (e_node cur) \<noteq> Some None"
  shows "search_inv G s (st\<lparr>explored := (explored st)(e_node cur \<mapsto> e_parent cur)\<rparr>)"
    and "visiting G s (st\<lparr>explored := (explored st)(e_node cur \<mapsto> e_parent cur)\<rparr>) cur"
proof -
  let ?st2 = "st\<lparr>explored := (explored st)(e_node cur \<mapsto> e_parent cur)\<rparr>"
  from inv have i: "seq_inv st" "path_inv G s st" "\<forall>e \<in> set (queue st). entry_ok G s st e"
    "\<forall>e \<in> set (queue st). \<forall>e' \<in> set (queue st).
        e_node e = e_node e' \<and> e_dist e = e_dist e' \<longrightarrow> e = e'"
    "explored st s = Some None" "\<forall>n \<in> dom (explored st). has_node G n"
    unfolding search_inv_def by simp_all
  from ok have sh: "e_path cur \<noteq> []" "last (e_path cur) = e_node cur"
    "e_node cur \<noteq> s \<longrightarrow> distinct (e_path cur)" "\<forall>v \<in> set (e_path cur). has_node G v"
    "0 \<le> e_dist cur" "prev_edge_of (e_path cur) (e_node cur) = Some (p, e_node cur)"
    "covered s st (e_path cur) (e_dist cur)"
    unfolding entry_ok_def entry_shape_def using par(1) by auto
  from ex i(5) have ns: "e_node cur \<noteq> s" by auto
  from sh(1,2,4) have hn: "has_node G (e_node cur)" using last_in_set by metis
  have pi: "path_inv G s ?st2"
    by (rule path_inv_set_explored[OF i(2) _ ex]) (simp add: par)
  show "search_inv G s ?st2"
    unfolding search_inv_def
    using i(1,3,4,5,6) pi ns hn par(1) by (simp add: seq_inv_explored)
  show "visiting G s ?st2 cur"
    unfolding visiting_def using sh ns par(2) by (simp add: prev_ok_def)
qed

lemma rank_facts_relax:
  assumes r: "rank_facts st g" and cur: "g (e_node cur) \<le> e_dist cur"
    and inv: "search_inv G s st" and vis: "visiting G s st cur"
    and edge: "has_edge G (e_node cur) nb" and w: "nonneg_costs G w"
    and rel: "relax G t h w cur nb st = Inr st'"
  shows "rank_facts st' g"
proof -
  from vis have "prev_ok G (prev_edge_of (e_path cur) (e_node cur)) (e_node cur)"
    unfolding visiting_def by simp
  with w edge obtain c0 where c0: "w G (prev_edge_of (e_path cur) (e_node cur)) (e_node cur, nb) = Inr c0"
    "0 \<le> c0"
    unfolding nonneg_costs_def by blast
  from inv have ok: "\<forall>e \<in> set (queue st). entry_ok G s st e" unfolding search_inv_def by simp
  from rel show ?thesis
  proof (cases rule: relax_cases)
    case (keep c qcost hv)
    with r show ?thesis by simp
  next
    case (improve c qcost hv)
    with c0 have "0 \<le> c" by simp
    from rank_facts_push[OF r cur this ok, of nb hv] improve show ?thesis by simp
  next
    case (new c hv)
    with c0 have "0 \<le> c" by simp
    from rank_facts_push[OF r cur this ok, of nb hv] new show ?thesis by simp
  qed
qed

lemma rank_facts_for_each:
  assumes f: "for_each (relax G t h w cur) xs st = Inr st'"
    and inv: "search_inv G s st" and vis: "visiting G s st cur"
    and r: "rank_facts st g" and cur: "g (e_node cur) \<le> e_dist cur"
    and edges: "\<forall>x \<in> set xs. has_edge G (e_node cur) x"
    and closed: "closed_graph G" and w: "nonneg_costs G w" and h: "total_heuristic G t h"
  shows "rank_facts st' g"
proof -
  have "search_inv G s st' \<and> visiting G s st' cur \<and> rank_facts st' g"
  proof (rule for_each_induct[OF f, where P = "\<lambda>st. search_inv G s st \<and> visiting G s st cur \<and> rank_facts st g"])
    show "search_inv G s st \<and> visiting G s st cur \<and> rank_facts st g" using inv vis r by simp
  next
    fix x s1 s2
    assume x: "x \<in> set xs" and P: "search_inv G s s1 \<and> visiting G s s1 cur \<and> rank_facts s1 g"
      and rel: "relax G t h w cur x s1 = Inr s2"
    from edges x have e: "has_edge G (e_node cur) x" by simp
    from relax_ok[OF _ _ e closed w h, of s s1] P rel
    have "search_inv G s s2" "visiting G s s2 cur" by auto
    moreover from P have "rank_facts s1 g" "search_inv G s s1" "visiting G s s1 cur" by simp_all
    from rank_facts_relax[OF this(1) cur this(2,3) e w rel] have "rank_facts s2 g" .
    ultimately show "search_inv G s s2 \<and> visiting G s s2 cur \<and> rank_facts s2 g" by simp
  qed
  then show ?thesis by simp
qed

lemma rank_inv_visit:
  fixes G :: "'n graph"
  assumes r: "rank_inv st" and inv: "search_inv G s st"
    and pop: "heappop (queue st) = Some (cur, q)"
    and ex: "explored st (e_node cur) \<noteq> Some None"
    and fresh: "\<And>p0. explored st (e_node cur) = Some (Some p0) \<Longrightarrow>
                  \<exists>qc hv. enqueued st (e_node cur) = Some (qc, hv) \<and> e_dist cur \<le> qc"
    and v: "visit G t h w cur (st\<lparr>queue := q\<rparr>) = Inr st'"
    and closed: "closed_graph G" and w: "nonneg_costs G w" and h: "total_heuristic G t h"
  shows "rank_inv st'"
proof -
  let ?st1 = "st\<lparr>queue := q\<rparr>"
  let ?st2 = "st\<lparr>queue := q, explored := (explored st)(e_node cur \<mapsto> e_parent cur)\<rparr>"
  from r obtain g where g: "rank_facts st g" unfolding rank_inv_def by blast
  note sp = search_inv_pop[OF inv pop]
  from sp(4) obtain p where par: "e_parent cur = Some p" "has_edge G p (e_node cur)"
    "p \<in> dom (explored st)" by blast
  have ok1: "entry_ok G s ?st1 cur" using sp(2) by simp
  have p1: "p \<in> dom (explored ?st1)" using par(3) by simp
  have ex1: "explored ?st1 (e_node cur) \<noteq> Some None" using ex by simp
  note vs = visit_start[OF sp(1) ok1 par(1,2) p1 ex1]
  from v obtain nbrs :: "('n \<times> attrs) list" where
    n: "neighbors G (e_node cur) = Inr nbrs" and
    f: "for_each (relax G t h w cur) (map fst nbrs) ?st2 = Inr st'"
    by (rule visit_Inr) simp
  have edges: "\<forall>x \<in> set (map fst nbrs). has_edge G (e_node cur) x"
    using has_edge_neighbors[OF n] by simp
  have r2: "rank_facts ?st2 (g(e_node cur := e_dist cur))"
    by (rule rank_facts_set_explored[OF g inv pop ex fresh])
  have "rank_facts st' (g(e_node cur := e_dist cur))"
    by (rule rank_facts_for_each[OF f _ _ r2 _ edges closed w h, of s])
       (use vs in simp_all)
  then show ?thesis unfolding rank_inv_def by blast
qed

lemma rank_inv_step:
  assumes r: "rank_inv st" and inv: "search_inv G s st"
    and closed: "closed_graph G" and w: "nonneg_costs G w" and h: "total_heuristic G t h"
    and step: "astar_step G t h w st = Continue st'"
  shows "rank_inv st'"
  using step
proof (cases rule: astar_step_Continue)
  case (skip_source cur q)
  from r obtain g where g: "rank_facts st g" unfolding rank_inv_def by blast
  from heappop_Some(2)[OF skip_source(1)] have "set q \<subseteq> set (queue st)"
    using set_remove1_subset by fastforce
  from rank_facts_pop[OF g this] skip_source(4) show ?thesis unfolding rank_inv_def by blast
next
  case (skip_stale cur q p qcost hv)
  from r obtain g where g: "rank_facts st g" unfolding rank_inv_def by blast
  from heappop_Some(2)[OF skip_stale(1)] have "set q \<subseteq> set (queue st)"
    using set_remove1_subset by fastforce
  from rank_facts_pop[OF g this] skip_stale(6) show ?thesis unfolding rank_inv_def by blast
next
  case (revisit cur q p qcost hv)
  show ?thesis
    by (rule rank_inv_visit[OF r inv revisit(1) _ _ revisit(6) closed w h])
       (use revisit in auto)
next
  case (first_visit cur q)
  show ?thesis
    by (rule rank_inv_visit[OF r inv first_visit(1) _ _ first_visit(4) closed w h])
       (use first_visit in auto)
qed

section \<open>Non-negative costs: the search returns\<close>

lemma steps_loop:
  "steps G t h w k st = Some st' \<Longrightarrow> astar_loop G t h w st = astar_loop G t h w st'"
proof (induction k arbitrary: st)
  case 0
  then show ?case by simp
next
  case (Suc k)
  from Suc.prems obtain st1 where 1: "astar_step G t h w st = Continue st1"
    and 2: "steps G t h w k st1 = Some st'"
    by (auto split: step_result.splits)
  have "astar_loop G t h w st = astar_loop G t h w st1"
    using 1 by (subst astar_loop.simps) simp
  with Suc.IH[OF 2] show ?case by simp
qed

lemma steps_Suc_first:
  "astar_step G t h w st = Continue st1 \<Longrightarrow> steps G t h w k st1 = Some st'
   \<Longrightarrow> steps G t h w (Suc k) st = Some st'"
  by simp

lemma astar_step_Exhausted: "astar_step G t h w st = Exhausted \<longleftrightarrow> queue st = []"
  by (cases "queue st")
     (simp_all add: astar_step_def heappop_def Let_def loop_body_not_Exhausted)

lemma run_to_end:
  assumes closed: "closed_graph G" and w: "nonneg_costs G w" and h: "total_heuristic G t h"
    and "search_inv G s st" "rank_inv st" "reach_inv G s t st"
  shows "\<exists>k st'. steps G t h w k st = Some st' \<and> search_inv G s st' \<and> rank_inv st'
           \<and> reach_inv G s t st'
           \<and> (astar_step G t h w st' = Exhausted
               \<or> (\<exists>cur st1. astar_step G t h w st' = Found cur st1))"
  using assms(4-6)
proof (induction "potential G st" arbitrary: st rule: less_induct)
  case less
  from search_inv_step[OF less.prems(1) closed w h]
  consider "astar_step G t h w st = Exhausted \<or> (\<exists>cur st1. astar_step G t h w st = Found cur st1)"
    | st1 where "astar_step G t h w st = Continue st1" "search_inv G s st1"
        "potential G st1 < potential G st"
    by blast
  then show ?case
  proof cases
    case 1
    have "steps G t h w 0 st = Some st" by simp
    with 1 less.prems show ?thesis by blast
  next
    case 2
    note r = rank_inv_step[OF less.prems(2,1) closed w h 2(1)]
    note b = reach_inv_step[OF less.prems(3) 2(1)]
    from less.hyps[OF 2(3,2) r b] obtain k st' where
      k: "steps G t h w k st1 = Some st'" "search_inv G s st'" "rank_inv st'" "reach_inv G s t st'"
      "astar_step G t h w st' = Exhausted \<or> (\<exists>cur st1. astar_step G t h w st' = Found cur st1)"
      by blast
    from steps_Suc_first[OF 2(1) k(1)] k(2-5) show ?thesis by blast
  qed
qed

lemma first_step_invariants:
  fixes G :: "'n graph"
  assumes "has_node G s" "s \<noteq> t"
    and closed: "closed_graph G" and w: "nonneg_costs G w" and h: "total_heuristic G t h"
  shows "\<exists>st1. astar_step G t h w (init_state s) = Continue st1 \<and> search_inv G s st1
           \<and> rank_inv st1 \<and> reach_inv G s t st1"
proof -
  let ?init = "\<lparr>e_priority = 0, e_seq = 0, e_node = s, e_dist = 0, e_parent = None,
                 e_path = [s]\<rparr> :: 'n entry"
  let ?st0 = "\<lparr>queue = [], counter = 1, enqueued = Map.empty, explored = [s \<mapsto> None]\<rparr>
                 :: 'n state"
  have inv0: "search_inv G s ?st0"
    unfolding search_inv_def using assms(1) by (simp add: seq_inv_def path_inv_def)
  have vis0: "visiting G s ?st0 ?init"
    unfolding visiting_def using assms(1)
    by (simp add: covered_def prev_ok_def prev_edge_of_def)
  have "back_chain [s \<mapsto> None] s [s]" by (rule back_chain.root) simp
  then have r0: "rank_facts ?st0 (\<lambda>_. 0)"
    by (intro rank_factsI) (auto split: if_splits)
  from has_node_neighbors[OF assms(1)] obtain nbrs :: "('n \<times> attrs) list" where
    n: "neighbors G s = Inr nbrs" by blast
  have edges: "\<forall>x \<in> set (map fst nbrs). has_edge G (e_node ?init) x"
    using has_edge_neighbors[OF n] by simp
  from for_each_relax_ok[OF inv0 vis0 edges closed w h] obtain st1 where
    f: "for_each (relax G t h w ?init) (map fst nbrs) ?st0 = Inr st1" "search_inv G s st1"
    by blast
  have step: "astar_step G t h w (init_state s) = Continue st1"
    using f(1) n assms(2)
    by (simp add: astar_step_def loop_body_def heappop_def init_state_def visit_def)
  have "rank_facts st1 (\<lambda>_. 0)"
    by (rule rank_facts_for_each[OF f(1) inv0 vis0 r0 _ edges closed w h]) simp
  then have "rank_inv st1" unfolding rank_inv_def by blast
  moreover have "reach_inv G s t st1" by (rule reach_inv_step[OF reach_inv_init step])
  ultimately show ?thesis using step f(2) by blast
qed

lemma search_outcome:
  assumes closed: "closed_graph G" and w: "nonneg_costs G w" and h: "total_heuristic G t h"
    and s: "has_node G s"
  shows "(\<exists>path. astar_loop G t h w (init_state s) = Some (Inr path))
       \<or> (astar_loop G t h w (init_state s) = Some (Inl NetworkXNoPath) \<and> \<not> reachable G s t
           \<and> (\<exists>k st. steps G t h w k (init_state s) = Some st \<and> queue st = []))"
proof (cases "s = t")
  case True
  then show ?thesis using astar_loop_source_is_target[of G s h w] by simp
next
  case False
  from first_step_invariants[OF s False closed w h] obtain st1 where
    1: "astar_step G t h w (init_state s) = Continue st1" "search_inv G s st1" "rank_inv st1"
    "reach_inv G s t st1" by blast
  from run_to_end[OF closed w h 1(2-4)] obtain k st' where
    k: "steps G t h w k st1 = Some st'" "search_inv G s st'" "rank_inv st'" "reach_inv G s t st'"
    "astar_step G t h w st' = Exhausted \<or> (\<exists>cur st2. astar_step G t h w st' = Found cur st2)"
    by blast
  note run = steps_Suc_first[OF 1(1) k(1)]
  note loop = steps_loop[OF run]
  from k(5) show ?thesis
  proof
    assume e: "astar_step G t h w st' = Exhausted"
    then have q: "queue st' = []" by (simp add: astar_step_Exhausted)
    from e have "astar_loop G t h w st' = Some (Inl NetworkXNoPath)"
      by (subst astar_loop.simps) simp
    with loop have l: "astar_loop G t h w (init_state s) = Some (Inl NetworkXNoPath)" by simp
    from run q have "\<exists>k st. steps G t h w k (init_state s) = Some st \<and> queue st = []"
      by blast
    with l reach_inv_empty[OF k(4) q] show ?thesis by blast
  next
    assume "\<exists>cur st2. astar_step G t h w st' = Found cur st2"
    then obtain cur st2 where f: "astar_step G t h w st' = Found cur st2" by blast
    then obtain q where q: "heappop (queue st') = Some (cur, q)" "e_node cur = t"
      "st2 = st'\<lparr>queue := q\<rparr>"
      by (rule astar_step_Found)
    from search_inv_pop(4)[OF k(2) q(1)] obtain p where
      p: "e_parent cur = Some p" "p \<in> dom (explored st')" by blast
    from k(3) p(2) obtain pp where "back_chain (explored st') p pp"
      unfolding rank_inv_def rank_facts_def by blast
    from walk_back_chain[OF this, of "[e_node cur]"] q(3) p(1)
    have "walk_back (explored st2) (e_parent cur) [e_node cur] = Some (Inr (pp @ [e_node cur]))"
      by simp
    with f have "astar_loop G t h w st' = Some (Inr (pp @ [e_node cur]))"
      by (subst astar_loop.simps) simp
    with loop show ?thesis by simp
  qed
qed

lemma reachable_has_node:
  assumes "closed_graph G" "has_node G s" "reachable G s t"
  shows "has_node G t"
proof -
  from assms(3) have "(s, t) \<in> {(u, v). has_edge G u v}\<^sup>*" by (simp add: reachable_def)
  then show ?thesis
  proof (induction rule: rtrancl_induct)
    case base
    then show ?case by (rule assms(2))
  next
    case (step y z)
    then show ?case using assms(1) unfolding closed_graph_def by blast
  qed
qed

lemma valid_walk_reachable:
  assumes "valid_walk G path" "path \<noteq> []"
  shows "reachable G (hd path) (last path)"
  using assms
proof (induction G path rule: valid_walk.induct)
  case (1 G u v rest)
  then have "reachable G v (last (v # rest))" by simp
  moreover from 1 have "has_edge G u v" by simp
  ultimately show ?case
    unfolding reachable_def by (simp add: converse_rtrancl_into_rtrancl)
qed (simp_all add: reachable_def)

lemma astar_path_total:
  assumes closed: "closed_graph G" and s: "has_node G s" and t: "has_node G t"
    and wf: "weight_function G weight = Inr w" and w: "nonneg_costs G w"
    and h: "total_heuristic G t (case heuristic of None \<Rightarrow> default_heuristic | Some f \<Rightarrow> f)"
  shows "(reachable G s t \<longrightarrow>
           (\<exists>path. astar_path G s t heuristic weight = Some (Inr path)
              \<and> path \<noteq> [] \<and> hd path = s \<and> last path = t \<and> valid_walk G path))
       \<and> (\<not> reachable G s t \<longrightarrow>
           astar_path G s t heuristic weight = Some (Inl NetworkXNoPath)
           \<and> (\<exists>k st. steps G t (case heuristic of None \<Rightarrow> default_heuristic | Some f \<Rightarrow> f) w k
                        (init_state s) = Some st \<and> queue st = []))"
proof -
  let ?h = "case heuristic of None \<Rightarrow> default_heuristic | Some f \<Rightarrow> f"
  have a: "astar_path G s t heuristic weight = astar_loop G t ?h w (init_state s)"
    using s t wf by (simp add: astar_path_def)
  note o = search_outcome[OF closed w h s]
  show ?thesis
  proof (intro conjI impI)
    assume r: "reachable G s t"
    with o obtain path where p: "astar_loop G t ?h w (init_state s) = Some (Inr path)" by blast
    with a have "astar_path G s t heuristic weight = Some (Inr path)" by simp
    with astar_path_valid[OF this]
    show "\<exists>path. astar_path G s t heuristic weight = Some (Inr path)
              \<and> path \<noteq> [] \<and> hd path = s \<and> last path = t \<and> valid_walk G path"
      by blast
  next
    assume n: "\<not> reachable G s t"
    have no: "\<not> (\<exists>path. astar_loop G t ?h w (init_state s) = Some (Inr path))"
    proof
      assume "\<exists>path. astar_loop G t ?h w (init_state s) = Some (Inr path)"
      then obtain path where "astar_path G s t heuristic weight = Some (Inr path)"
        using a by auto
      from astar_path_valid[OF this] valid_walk_reachable[of G path] n show False by auto
    qed
    with o a show "astar_path G s t heuristic weight = Some (Inl NetworkXNoPath)" by auto
    from o no
    show "\<exists>k st. steps G t ?h w k (init_state s) = Some st \<and> queue st = []" by blast
  qed
qed

lemma astar_loop_NoPath:
  assumes "astar_loop G t h w st = Some (Inl NetworkXNoPath)" "reach_inv G s t st"
    and "\<forall>p c. w G p c \<noteq> Inl NetworkXNoPath" and "\<forall>u. h u t \<noteq> Inl NetworkXNoPath"
  shows "\<not> reachable G s t"
proof -
  have "r = Inl NetworkXNoPath \<longrightarrow> reach_inv G s t st \<longrightarrow> \<not> reachable G s t"
    if "astar_loop G t h w st = Some r" for r
    using that
  proof (induction rule: astar_loop_induct)
    case (Exhausted st)
    then show ?case using reach_inv_empty[of G s t st] by (simp add: astar_step_Exhausted)
  next
    case (Failed st err)
    from astar_step_Failed[OF this] assms(3,4) show ?case by auto
  next
    case (Found st cur st1 r)
    from walk_back_result[OF Found(2)] show ?case by auto
  next
    case (Continue st st1 r)
    then show ?case using reach_inv_step[of G s t st h w st1] by blast
  qed
  from this[OF assms(1)] assms(2) show ?thesis by simp
qed

lemma astar_path_NoPath:
  assumes "astar_path G s t heuristic weight = Some (Inl NetworkXNoPath)"
    and "never_raises NetworkXNoPath G t heuristic weight"
  shows "\<not> reachable G s t"
proof -
  define h where "h = (case heuristic of None \<Rightarrow> default_heuristic | Some f \<Rightarrow> f)"
  have h: "\<forall>u. h u t \<noteq> Inl NetworkXNoPath"
    using assms(2) by (auto simp: h_def never_raises_def default_heuristic_def split: option.splits)
  from assms(1) obtain w where w: "weight_function G weight = Inr w"
    and l: "astar_loop G t h w (init_state s) = Some (Inl NetworkXNoPath)"
    unfolding astar_path_def Let_def h_def[symmetric]
    by (cases "weight_function G weight")
       (auto simp: weight_function_def split: weight_spec.splits if_splits)
  have "\<forall>p c. w G p c \<noteq> Inl NetworkXNoPath"
    using w assms(2)
    by (auto simp: weight_function_def never_raises_def attr_weight_def
             split: weight_spec.splits if_splits dest: edge_attr_error)
  from astar_loop_NoPath[OF l reach_inv_init this h] show ?thesis .
qed

subsection \<open>A graph with non-negative costs\<close>

lemma triangle_closed: "closed_graph triangle_graph"
  unfolding closed_graph_def has_edge_def has_node_def triangle_graph_def
  by (auto split: if_splits)

lemma triangle_nonneg: "nonneg_costs triangle_graph dependent_weight"
  unfolding nonneg_costs_def has_edge_def prev_ok_def dependent_weight_def edge_attr_def
    get_edge_data_def triangle_graph_def
  by (auto split: if_splits option.splits)

lemma triangle_reachable: "reachable triangle_graph ''S'' ''T''"
  unfolding reachable_def
  by (rule r_into_rtrancl) (simp add: has_edge_def triangle_graph_def)

section \<open>The returned path\<close>

text \<open>
  Claim C1, amended. Whenever \<open>astar_path\<close> returns a node sequence, the sequence is not
  empty, starts at the source, ends at the target, and every two consecutive nodes of it
  are joined by an edge of the graph; this holds for every graph, heuristic and cost
  function. It does return one when the target is reachable from the source, every edge
  of the graph leads to a node of the graph, the weight resolves to a cost function that
  returns a non-negative number on every edge after every previous edge, and the
  heuristic (the zero heuristic when none is given) returns a number on every node: the
  heuristic need not be admissible. Without non-negative costs the search may run
  forever although the target is reachable, as on the graph with a negative cycle above.
\<close>

theorem astar_path_returns_walk:
  "(closed_graph G \<and> has_node G s \<and> reachable G s t \<and> weight_function G weight = Inr w
      \<and> nonneg_costs G w
      \<and> total_heuristic G t (case heuristic of None \<Rightarrow> default_heuristic | Some f \<Rightarrow> f)
    \<longrightarrow> (\<exists>path. astar_path G s t heuristic weight = Some (Inr path)
            \<and> path \<noteq> [] \<and> hd path = s \<and> last path = t \<and> valid_walk G path))
   \<and> (\<forall>path. astar_path G s t heuristic weight = Some (Inr path)
        \<longrightarrow> path \<noteq> [] \<and> hd path = s \<and> last path = t \<and> valid_walk G path)"
  using astar_path_total[of G s t weight w heuristic] reachable_has_node[of G s t]
    astar_path_valid[of G s t heuristic weight]
  by blast

theorem astar_path_returns_walk_witness:
  "closed_graph triangle_graph \<and> has_node triangle_graph ''S''
   \<and> reachable triangle_graph ''S'' ''T'' \<and> nonneg_costs triangle_graph dependent_weight
   \<and> total_heuristic triangle_graph ''T'' default_heuristic
   \<and> (\<exists>path. astar_path triangle_graph ''S'' ''T'' None (Callable dependent_weight)
               = Some (Inr path)
        \<and> path \<noteq> [] \<and> hd path = ''S'' \<and> last path = ''T'' \<and> valid_walk triangle_graph path)"
proof -
  have 1: "has_node triangle_graph ''S''" by (simp add: has_node_def triangle_graph_def)
  have 2: "total_heuristic triangle_graph ''T'' (default_heuristic :: string heuristic_fn)"
    by (simp add: total_heuristic_def default_heuristic_def)
  have 3: "weight_function triangle_graph (Callable dependent_weight) = Inr dependent_weight"
    by (simp add: weight_function_def)
  from astar_path_returns_walk[of triangle_graph "''S''" "''T''" "Callable dependent_weight"
      dependent_weight None]
    triangle_closed triangle_nonneg triangle_reachable 1 2 3
  show ?thesis by simp
qed

section \<open>The length of the returned path\<close>

lemma cost_inv_init: "cost_inv G w (init_state s)"
  by (simp add: cost_inv_def init_state_def prev_edge_of_def prev_of_def)

lemma cost_inv_pop:
  assumes "cost_inv G w st" "heappop (queue st) = Some (cur, q)"
  shows "cost_inv G w (st\<lparr>queue := q\<rparr>)"
    and "e_path cur \<noteq> []" and "last (e_path cur) = e_node cur"
    and "prev_edge_of (e_path cur) (e_node cur) = prev_of (e_parent cur) (e_node cur)"
proof -
  from heappop_Some(1,2)[OF assms(2)] have c: "cur \<in> set (queue st)" and q: "q = remove1 cur (queue st)"
    by simp_all
  from assms(1) q show "cost_inv G w (st\<lparr>queue := q\<rparr>)"
    unfolding cost_inv_def by (auto dest: in_set_remove1D)
  from assms(1) c show "e_path cur \<noteq> []" "last (e_path cur) = e_node cur"
    "prev_edge_of (e_path cur) (e_node cur) = prev_of (e_parent cur) (e_node cur)"
    unfolding cost_inv_def by blast+
qed

lemma cost_inv_visit:
  fixes G :: "'n graph"
  assumes inv: "cost_inv G w st" and v: "visit G t h w cur st = Inr st'"
    and ne: "e_path cur \<noteq> []" and la: "last (e_path cur) = e_node cur"
    and pe: "prev_edge_of (e_path cur) (e_node cur) = prev_of (e_parent cur) (e_node cur)"
  shows "cost_inv G w st'"
proof -
  let ?st0 = "st\<lparr>explored := (explored st)(e_node cur \<mapsto> e_parent cur)\<rparr>"
  let ?shape = "\<lambda>s :: 'n state. \<forall>e \<in> set (queue s).
          e_path e \<noteq> [] \<and> last (e_path e) = e_node e
          \<and> prev_edge_of (e_path e) (e_node e) = prev_of (e_parent e) (e_node e)"
  from v obtain nbrs :: "('n \<times> attrs) list" where nb: "neighbors G (e_node cur) = Inr nbrs"
    and fe: "for_each (relax G t h w cur) (map fst nbrs) ?st0 = Inr st'"
    by (rule visit_Inr)
  have shape0: "?shape ?st0" using inv by (simp add: cost_inv_def)
  have shape: "?shape st'"
  proof (rule for_each_induct[OF fe, where P = ?shape])
    show "?shape ?st0" by (rule shape0)
  next
    fix x s s'
    assume s: "?shape s" and r: "relax G t h w cur x s = Inr s'"
    have new: "?shape (push_neighbor cur x d hv s)" for d hv
      using s ne la
      by (auto simp: push_neighbor_def heappush_def prev_edge_of_snoc prev_of_def)
    from r show "?shape s'"
    proof (cases rule: relax_cases)
      case (keep c qcost hv)
      with s show ?thesis by simp
    next
      case (improve c qcost hv)
      with new show ?thesis by simp
    next
      case (new c hv)
      with \<open>\<And>d hv. ?shape (push_neighbor cur x d hv s)\<close> show ?thesis by simp
    qed
  qed
  have costs: "\<forall>x \<in> set (map fst nbrs).
      \<exists>c. w G (prev_edge_of (e_path cur) (e_node cur)) (e_node cur, x) = Inr c"
  proof (rule for_each_post[OF fe, where
        Q = "\<lambda>x s. \<exists>c. w G (prev_edge_of (e_path cur) (e_node cur)) (e_node cur, x) = Inr c"])
    fix x s s' assume "relax G t h w cur x s = Inr s'"
    then show "\<exists>c. w G (prev_edge_of (e_path cur) (e_node cur)) (e_node cur, x) = Inr c"
      by (cases rule: relax_cases) simp_all
  next
    fix x y s s'
    assume "\<exists>c. w G (prev_edge_of (e_path cur) (e_node cur)) (e_node cur, x) = Inr c"
    then show "\<exists>c. w G (prev_edge_of (e_path cur) (e_node cur)) (e_node cur, x) = Inr c" .
  qed
  have ex: "explored st' = (explored st)(e_node cur \<mapsto> e_parent cur)"
    by (rule visit_explored[OF v])
  have "\<exists>c. w G (prev_of p n) (n, m) = Inr c"
    if a: "explored st' n = Some p" and e: "has_edge G n m" for n p m
  proof (cases "n = e_node cur")
    case True
    with a ex have p: "p = e_parent cur" by simp
    from e True has_edge_neighbors[OF nb, of m] have "m \<in> set (map fst nbrs)" by simp
    with costs pe p True show ?thesis by auto
  next
    case False
    with a ex have "explored st n = Some p" by simp
    with inv e show ?thesis unfolding cost_inv_def by blast
  qed
  with shape show ?thesis unfolding cost_inv_def by blast
qed

lemma cost_inv_step:
  assumes "cost_inv G w st" "astar_step G t h w st = Continue st'"
  shows "cost_inv G w st'"
  using assms(2)
proof (cases rule: astar_step_Continue)
  case (skip_source cur q)
  with cost_inv_pop(1)[OF assms(1) skip_source(1)] show ?thesis by simp
next
  case (skip_stale cur q p qcost hv)
  with cost_inv_pop(1)[OF assms(1) skip_stale(1)] show ?thesis by simp
next
  case (revisit cur q p qcost hv)
  note pop = cost_inv_pop[OF assms(1) revisit(1)]
  show ?thesis by (rule cost_inv_visit[OF pop(1) revisit(6) pop(2,3,4)])
next
  case (first_visit cur q)
  note pop = cost_inv_pop[OF assms(1) first_visit(1)]
  show ?thesis by (rule cost_inv_visit[OF pop(1) first_visit(4) pop(2,3,4)])
qed

lemma walk_back_cost:
  assumes "walk_back ex nd acc = Some (Inr path)"
    and A: "\<forall>n p m. ex n = Some p \<longrightarrow> has_edge G n m \<longrightarrow> (\<exists>c. w G (prev_of p n) (n, m) = Inr c)"
    and B: "\<forall>n p. ex n = Some (Some p) \<longrightarrow> has_edge G p n"
    and "acc \<noteq> []"
    and "case nd of None \<Rightarrow> (\<forall>a. \<exists>c. walk_cost w G None (rev acc) a = Inr c)
         | Some n \<Rightarrow> has_edge G n (last acc)
             \<and> (\<forall>a. \<exists>c. walk_cost w G (Some (n, last acc)) (rev acc) a = Inr c)"
  shows "\<exists>c. walk_cost w G None path a = Inr c"
proof -
  let ?pre = "\<lambda>nd acc. acc \<noteq> []
      \<and> (case nd of None \<Rightarrow> (\<forall>a. \<exists>c. walk_cost w G None (rev acc) a = Inr c)
         | Some n \<Rightarrow> has_edge G n (last acc)
             \<and> (\<forall>a. \<exists>c. walk_cost w G (Some (n, last acc)) (rev acc) a = Inr c))"
  let ?post = "\<lambda>path. \<forall>a. \<exists>c. walk_cost w G None path a = Inr c"
  have "ex' = ex \<longrightarrow> (\<forall>path. r = Inr path \<longrightarrow> ?pre nd acc \<longrightarrow> ?post path)"
    if "walk_back ex' nd acc = Some r" for ex' r
    using that
  proof (rule walk_back.raw_induct[where P = "\<lambda>ex' nd acc r. ex' = ex \<longrightarrow>
       (\<forall>path. r = Inr path \<longrightarrow> ?pre nd acc \<longrightarrow> ?post path)", rotated])
    fix f ex' nd acc r
    assume IH: "\<And>ex' nd acc r. f ex' nd acc = Some r \<Longrightarrow> ex' = ex \<longrightarrow>
       (\<forall>path. r = Inr path \<longrightarrow> ?pre nd acc \<longrightarrow> ?post path)"
      and body: "(case nd of None \<Rightarrow> Some (Inr (rev acc))
          | Some n \<Rightarrow> (case ex' n of None \<Rightarrow> Some (Inl KeyError) | Some p \<Rightarrow> f ex' p (acc @ [n]))) = Some r"
    show "ex' = ex \<longrightarrow> (\<forall>path. r = Inr path \<longrightarrow> ?pre nd acc \<longrightarrow> ?post path)"
    proof (rule impI, rule allI, rule impI, rule impI)
      fix path assume e: "ex' = ex" and r: "r = Inr path" and pre: "?pre nd acc"
      show "?post path"
      proof (cases nd)
        case None
        with body r pre show ?thesis by auto
      next
        case (Some n)
        with body r e obtain p where p: "ex n = Some p" and f: "f ex p (acc @ [n]) = Some (Inr path)"
          by (auto split: option.splits)
        from pre Some have en: "has_edge G n (last acc)"
          and rest: "\<forall>a. \<exists>c. walk_cost w G (Some (n, last acc)) (rev acc) a = Inr c"
          and ne: "acc \<noteq> []"
          by simp_all
        from A p en obtain c0 where c0: "w G (prev_of p n) (n, last acc) = Inr c0" by blast
        from ne obtain ys where racc: "rev acc = last acc # ys"
          by (cases acc rule: rev_cases) auto
        have step: "\<exists>c. walk_cost w G (prev_of p n) (n # rev acc) a = Inr c" for a
        proof -
          have 1: "walk_cost w G (prev_of p n) (n # last acc # ys) a
                  = walk_cost w G (Some (n, last acc)) (last acc # ys) (a + c0)"
            using c0 by simp
          from rest obtain c where "walk_cost w G (Some (n, last acc)) (rev acc) (a + c0) = Inr c"
            by blast
          then have 2: "walk_cost w G (Some (n, last acc)) (last acc # ys) (a + c0) = Inr c"
            by (simp only: racc)
          show ?thesis unfolding racc using 1 2 by metis
        qed
        have "?pre p (acc @ [n])"
        proof (cases p)
          case None
          with step show ?thesis by (simp add: prev_of_def)
        next
          case (Some p')
          with p B have "has_edge G p' n" by blast
          with step Some show ?thesis by (simp add: prev_of_def)
        qed
        with IH[OF f] show ?thesis by simp
      qed
    qed
  qed
  from this[OF assms(1)] assms(4,5) show ?thesis by simp
qed

lemma astar_loop_cost:
  assumes "astar_loop G t h w st = Some (Inr path)" "path_inv G s st" "cost_inv G w st"
  shows "\<exists>c. walk_cost w G None path 0 = Inr c"
proof -
  have "\<forall>path. r = Inr path \<longrightarrow> path_inv G s st \<longrightarrow> cost_inv G w st \<longrightarrow>
          (\<exists>c. walk_cost w G None path 0 = Inr c)"
    if "astar_loop G t h w st = Some r" for r
    using that
  proof (induction rule: astar_loop_induct)
    case (Exhausted st)
    then show ?case by simp
  next
    case (Failed st err)
    then show ?case by simp
  next
    case (Found st cur st1 r)
    show ?case
    proof (intro allI impI)
      fix path assume r: "r = Inr path" and inv: "path_inv G s st" and ci: "cost_inv G w st"
      from Found(1) obtain q where q: "heappop (queue st) = Some (cur, q)" "e_node cur = t"
        "st1 = st\<lparr>queue := q\<rparr>"
        by (rule astar_step_Found)
      have A: "\<forall>n p m. explored st1 n = Some p \<longrightarrow> has_edge G n m
                 \<longrightarrow> (\<exists>c. w G (prev_of p n) (n, m) = Inr c)"
        using ci q(3) by (simp add: cost_inv_def)
      have B: "\<forall>n p. explored st1 n = Some (Some p) \<longrightarrow> has_edge G p n"
        using inv q(3) by (simp add: path_inv_def)
      have par: "case e_parent cur of
                   None \<Rightarrow> (\<forall>a. \<exists>c. walk_cost w G None (rev [e_node cur]) a = Inr c)
                 | Some n \<Rightarrow> has_edge G n (last [e_node cur])
                     \<and> (\<forall>a. \<exists>c. walk_cost w G (Some (n, last [e_node cur])) (rev [e_node cur]) a = Inr c)"
        using path_inv_popped[OF inv q(1)] by (cases "e_parent cur") simp_all
      show "\<exists>c. walk_cost w G None path 0 = Inr c"
        by (rule walk_back_cost[OF Found(2)[unfolded r] A B _ par]) simp
    qed
  next
    case (Continue st st1 r)
    show ?case
    proof (intro allI impI)
      fix path assume r: "r = Inr path" and inv: "path_inv G s st" and ci: "cost_inv G w st"
      from path_inv_step[OF inv Continue(1)] cost_inv_step[OF ci Continue(1)] Continue(2) r
      show "\<exists>c. walk_cost w G None path 0 = Inr c" by simp
    qed
  qed
  from this[OF assms(1)] assms(2,3) show ?thesis by simp
qed

lemma astar_path_cost:
  assumes "astar_path G s t heuristic weight = Some (Inr path)"
    and "weight_function G weight = Inr w"
  shows "\<exists>c. walk_cost w G None path 0 = Inr c"
proof -
  define h where "h = (case heuristic of None \<Rightarrow> default_heuristic | Some f \<Rightarrow> f)"
  from assms have "astar_loop G t h w (init_state s) = Some (Inr path)"
    unfolding astar_path_def Let_def h_def[symmetric]
    by (simp split: if_splits)
  from astar_loop_cost[OF this path_inv_init cost_inv_init] show ?thesis .
qed

text \<open>
  Claim C3. Whenever \<open>astar_path\<close> returns a node sequence, the weight resolves to a cost
  function, that cost function returns a number on every edge of the sequence, called
  in path order with no previous edge for the first edge and with the edge before it for
  each later one, and \<open>astar_path_length\<close> on the same arguments returns the sum of these
  numbers. The calls made for the length return because the search has made each of them
  before: when the entry of a node in the explored table is set, the cost of every edge
  leaving the node is computed with the edge from the new parent as previous edge.
\<close>

theorem length_is_path_cost:
  assumes "astar_path G s t heuristic weight = Some (Inr path)"
  shows "\<exists>w c. weight_function G weight = Inr w
           \<and> walk_cost w G None path 0 = Inr c
           \<and> astar_path_length G s t heuristic weight = Some (Inr c)"
proof -
  from astar_path_length_walk_cost[OF assms] obtain w
    where w: "weight_function G weight = Inr w"
      and l: "astar_path_length G s t heuristic weight = Some (walk_cost w G None path 0)"
    by blast
  from astar_path_cost[OF assms w] obtain c where "walk_cost w G None path 0 = Inr c" ..
  with w l show ?thesis by simp
qed

theorem length_is_path_cost_witness:
  "astar_path test_graph ''S'' ''T'' None (Callable dependent_weight)
     = Some (Inr [''S'', ''A1'', ''T''])
   \<and> weight_function test_graph (Callable dependent_weight) = Inr dependent_weight
   \<and> walk_cost dependent_weight test_graph None [''S'', ''A1'', ''T''] 0 = Inr (- 5.5)
   \<and> astar_path_length test_graph ''S'' ''T'' None (Callable dependent_weight)
     = Some (Inr (- 5.5))"
proof -
  have "walk_cost dependent_weight test_graph None [''S'', ''A1'', ''T''] 0 = Inr (- 5.5)"
    by (simp add: dependent_weight_def edge_attr_def get_edge_data_def test_graph_def)
  then show ?thesis
    using length_is_path_cost[OF test_graph_dependent_path] test_graph_dependent_path
    by (auto simp: weight_function_def)
qed

section \<open>No path\<close>

lemma nonneg_total: "nonneg_costs G w \<Longrightarrow> total_costs G w"
  unfolding nonneg_costs_def total_costs_def by blast

lemma live_inv_init: "live_inv G s (init_state s)"
  by (simp add: live_inv_def init_state_def reachable_def)

lemma live_inv_pop:
  assumes "live_inv G s st" "heappop (queue st) = Some (cur, q)"
  shows "live_inv G s (st\<lparr>queue := q\<rparr>)"
    and "reachable G s (e_node cur)"
    and "e_parent cur \<noteq> None \<longrightarrow> e_node cur \<in> dom (enqueued st)"
proof -
  from heappop_Some(1,2)[OF assms(2)] have c: "cur \<in> set (queue st)"
    and q: "q = remove1 cur (queue st)"
    by simp_all
  from assms(1) q show "live_inv G s (st\<lparr>queue := q\<rparr>)"
    unfolding live_inv_def by (auto dest: in_set_remove1D)
  from assms(1) c show "reachable G s (e_node cur)"
    "e_parent cur \<noteq> None \<longrightarrow> e_node cur \<in> dom (enqueued st)"
    unfolding live_inv_def by blast+
qed

lemma live_inv_push:
  assumes "live_inv G s st" "reachable G s (e_node cur)" "has_edge G (e_node cur) nb"
  shows "live_inv G s (push_neighbor cur nb d hv st)"
proof -
  from assms(2,3) have "reachable G s nb"
    unfolding reachable_def by (simp add: rtrancl_into_rtrancl)
  with assms(1) show ?thesis
    unfolding live_inv_def push_neighbor_def heappush_def by auto
qed

lemma live_inv_visit:
  fixes G :: "'n graph"
  assumes inv: "live_inv G s st" and v: "visit G t h w cur st = Inr st'"
    and re: "reachable G s (e_node cur)"
    and en: "e_parent cur \<noteq> None \<longrightarrow> e_node cur \<in> dom (enqueued st)"
  shows "live_inv G s st'"
proof -
  let ?st0 = "st\<lparr>explored := (explored st)(e_node cur \<mapsto> e_parent cur)\<rparr>"
  from v obtain nbrs :: "('n \<times> attrs) list" where nb: "neighbors G (e_node cur) = Inr nbrs"
    and fe: "for_each (relax G t h w cur) (map fst nbrs) ?st0 = Inr st'"
    by (rule visit_Inr)
  have st0: "live_inv G s ?st0"
    using inv en unfolding live_inv_def by auto
  show ?thesis
  proof (rule for_each_induct[OF fe, where P = "live_inv G s"])
    show "live_inv G s ?st0" by (rule st0)
  next
    fix x s1 s2
    assume x: "x \<in> set (map fst nbrs)" and s1: "live_inv G s s1"
      and r: "relax G t h w cur x s1 = Inr s2"
    from x has_edge_neighbors[OF nb, of x] have e: "has_edge G (e_node cur) x" by simp
    note new = live_inv_push[OF s1 re e]
    from r show "live_inv G s s2"
    proof (cases rule: relax_cases)
      case (keep c qcost hv)
      with s1 show ?thesis by simp
    next
      case (improve c qcost hv)
      with new show ?thesis by simp
    next
      case (new c hv)
      with live_inv_push[OF s1 re e] show ?thesis by simp
    qed
  qed
qed

lemma live_inv_step:
  assumes "live_inv G s st" "astar_step G t h w st = Continue st'"
  shows "live_inv G s st'"
  using assms(2)
proof (cases rule: astar_step_Continue)
  case (skip_source cur q)
  with live_inv_pop(1)[OF assms(1) skip_source(1)] show ?thesis by simp
next
  case (skip_stale cur q p qcost hv)
  with live_inv_pop(1)[OF assms(1) skip_stale(1)] show ?thesis by simp
next
  case (revisit cur q p qcost hv)
  note pop = live_inv_pop[OF assms(1) revisit(1)]
  from pop(3) have "e_parent cur \<noteq> None \<longrightarrow> e_node cur \<in> dom (enqueued (st\<lparr>queue := q\<rparr>))"
    by simp
  from live_inv_visit[OF pop(1) revisit(6) pop(2) this] show ?thesis .
next
  case (first_visit cur q)
  note pop = live_inv_pop[OF assms(1) first_visit(1)]
  from pop(3) have "e_parent cur \<noteq> None \<longrightarrow> e_node cur \<in> dom (enqueued (st\<lparr>queue := q\<rparr>))"
    by simp
  from live_inv_visit[OF pop(1) first_visit(4) pop(2) this] show ?thesis .
qed

lemma relax_total:
  assumes e: "has_edge G (e_node cur) nb"
    and p: "prev_ok G (prev_edge_of (e_path cur) (e_node cur)) (e_node cur)"
    and w: "total_costs G w" and h: "total_heuristic G t h" and c: "closed_graph G"
  shows "\<exists>st'. relax G t h w cur nb st = Inr st'"
proof -
  from w e p obtain c0 where c0: "w G (prev_edge_of (e_path cur) (e_node cur)) (e_node cur, nb) = Inr c0"
    unfolding total_costs_def by blast
  from c e have "has_node G nb" unfolding closed_graph_def by blast
  with h obtain hv where hv: "h nb t = Inr hv" unfolding total_heuristic_def by blast
  show ?thesis
    unfolding relax_def by (simp add: c0 hv Let_def split: option.splits prod.splits)
qed

lemma for_each_total:
  "(\<And>x s. x \<in> set xs \<Longrightarrow> \<exists>s'. f x s = Inr s') \<Longrightarrow> \<exists>st'. for_each f xs st = Inr st'"
proof (induction xs arbitrary: st)
  case Nil
  then show ?case by simp
next
  case (Cons x xs)
  from Cons.prems[of x st] obtain s' where s': "f x st = Inr s'" by auto
  from Cons.IH[of s'] Cons.prems obtain st' where "for_each f xs s' = Inr st'" by auto
  with s' show ?case by simp
qed

lemma visit_total:
  fixes G :: "'n graph"
  assumes n: "has_node G (e_node cur)"
    and p: "prev_ok G (prev_edge_of (e_path cur) (e_node cur)) (e_node cur)"
    and w: "total_costs G w" and h: "total_heuristic G t h" and c: "closed_graph G"
  shows "\<exists>st'. visit G t h w cur st = Inr st'"
proof -
  from has_node_neighbors[OF n] obtain nbrs :: "('n \<times> attrs) list"
    where nb: "neighbors G (e_node cur) = Inr nbrs" by blast
  have "\<exists>st'. for_each (relax G t h w cur) (map fst nbrs)
          (st\<lparr>explored := (explored st)(e_node cur \<mapsto> e_parent cur)\<rparr>) = Inr st'"
  proof (rule for_each_total)
    fix x s assume "x \<in> set (map fst nbrs)"
    with has_edge_neighbors[OF nb, of x] have "has_edge G (e_node cur) x" by simp
    from relax_total[OF this p w h c] show "\<exists>s'. relax G t h w cur x s = Inr s'" .
  qed
  with nb show ?thesis by (simp add: visit_def)
qed

lemma astar_step_total:
  assumes c: "closed_graph G" and s: "has_node G s"
    and w: "total_costs G w" and h: "total_heuristic G t h"
    and pi: "path_inv G s st" and ci: "cost_inv G w st" and li: "live_inv G s st"
  shows "astar_step G t h w st \<noteq> Failed err"
proof (cases "heappop (queue st)")
  case None
  then show ?thesis by (simp add: astar_step_def)
next
  case (Some a)
  obtain cur q where a: "a = (cur, q)" by (cases a)
  with Some have pop: "heappop (queue st) = Some (cur, q)" by simp
  note cp = cost_inv_pop[OF ci pop]
  note lp = live_inv_pop[OF li pop]
  note pp = path_inv_popped[OF pi pop]
  from reachable_has_node[OF c s lp(2)] have n: "has_node G (e_node cur)" .
  have p: "prev_ok G (prev_edge_of (e_path cur) (e_node cur)) (e_node cur)"
    using pp unfolding cp(4) by (cases "e_parent cur") (simp_all add: prev_ok_def prev_of_def)
  from visit_total[OF n p w h c, of "st\<lparr>queue := q\<rparr>"]
  obtain st' where v: "visit G t h w cur (st\<lparr>queue := q\<rparr>) = Inr st'" by blast
  have enq: "enqueued st (e_node cur) \<noteq> None" if "explored st (e_node cur) = Some (Some p')" for p'
    using li that unfolding live_inv_def by blast
  have "loop_body G t h w cur (st\<lparr>queue := q\<rparr>) \<noteq> Failed err"
    unfolding loop_body_def using v enq
    by (auto split: option.splits prod.splits)
  with pop show ?thesis by (simp add: astar_step_def)
qed

lemma astar_step_not_target:
  assumes "astar_step G t h w st = Continue st'"
  shows "case heappop (queue st) of None \<Rightarrow> False | Some (cur, q) \<Rightarrow> e_node cur \<noteq> t"
  using assms by (cases rule: astar_step_Continue) simp_all

lemma steps_never_popped:
  "steps G t h w k st = Some st' \<Longrightarrow> never_popped G t h w k st"
proof (induction k arbitrary: st)
  case 0
  then show ?case by (simp add: never_popped_def)
next
  case (Suc k)
  from Suc.prems obtain st1 where c: "astar_step G t h w st = Continue st1"
    and r: "steps G t h w k st1 = Some st'"
    by (auto split: step_result.splits)
  from Suc.IH[OF r] have ih: "never_popped G t h w k st1" .
  show ?case
    unfolding never_popped_def
  proof (intro allI impI)
    fix j assume j: "j < Suc k"
    show "case steps G t h w j st of None \<Rightarrow> False
          | Some st' \<Rightarrow> (case heappop (queue st') of None \<Rightarrow> False
                         | Some (cur, q) \<Rightarrow> e_node cur \<noteq> t)"
    proof (cases j)
      case 0
      with astar_step_not_target[OF c] show ?thesis by simp
    next
      case (Suc j')
      with j have "j' < k" by simp
      with ih have "case steps G t h w j' st1 of None \<Rightarrow> False
          | Some st' \<Rightarrow> (case heappop (queue st') of None \<Rightarrow> False
                         | Some (cur, q) \<Rightarrow> e_node cur \<noteq> t)"
        unfolding never_popped_def by blast
      with Suc c show ?thesis by simp
    qed
  qed
qed

lemma astar_loop_unreachable:
  assumes "astar_loop G t h w st = Some r"
    and c: "closed_graph G" and s: "has_node G s"
    and w: "total_costs G w" and h: "total_heuristic G t h"
    and un: "\<not> reachable G s t"
    and "path_inv G s st" "cost_inv G w st" "live_inv G s st"
  shows "r = Inl NetworkXNoPath
         \<and> (\<exists>k st'. steps G t h w k st = Some st' \<and> queue st' = [])"
proof -
  have "path_inv G s st \<longrightarrow> cost_inv G w st \<longrightarrow> live_inv G s st \<longrightarrow>
          r = Inl NetworkXNoPath \<and> (\<exists>k st'. steps G t h w k st = Some st' \<and> queue st' = [])"
    if "astar_loop G t h w st = Some r" for r
    using that
  proof (induction rule: astar_loop_induct)
    case (Exhausted st)
    then have "queue st = []" by (simp add: astar_step_Exhausted)
    then have "steps G t h w 0 st = Some st \<and> queue st = []" by simp
    then show ?case by blast
  next
    case (Failed st err)
    with astar_step_total[OF c s w h, of st err] show ?case by blast
  next
    case (Found st cur st1 r)
    show ?case
    proof (intro impI)
      assume li: "live_inv G s st"
      from Found(1) obtain q where q: "heappop (queue st) = Some (cur, q)" "e_node cur = t"
        by (rule astar_step_Found)
      from live_inv_pop(2)[OF li q(1)] q(2) un
      show "r = Inl NetworkXNoPath
            \<and> (\<exists>k st'. steps G t h w k st = Some st' \<and> queue st' = [])"
        by simp
    qed
  next
    case (Continue st st1 r)
    show ?case
    proof (intro impI)
      assume pi: "path_inv G s st" and ci: "cost_inv G w st" and li: "live_inv G s st"
      from Continue(2) path_inv_step[OF pi Continue(1)] cost_inv_step[OF ci Continue(1)]
        live_inv_step[OF li Continue(1)]
      obtain k st' where r: "r = Inl NetworkXNoPath"
        and k: "steps G t h w k st1 = Some st'" "queue st' = []"
        by blast
      from steps_Suc_first[OF Continue(1) k(1)] k(2)
      have "\<exists>k st'. steps G t h w k st = Some st' \<and> queue st' = []" by blast
      with r show "r = Inl NetworkXNoPath
            \<and> (\<exists>k st'. steps G t h w k st = Some st' \<and> queue st' = [])"
        by simp
    qed
  qed
  from this[OF assms(1)] assms(7-9) show ?thesis by simp
qed

lemma astar_path_unreachable:
  assumes "astar_path G s t heuristic weight = Some r"
    and c: "closed_graph G" and s: "has_node G s" and t: "has_node G t"
    and wf: "weight_function G weight = Inr w"
    and w: "total_costs G w"
    and h: "total_heuristic G t (case heuristic of None \<Rightarrow> default_heuristic | Some f \<Rightarrow> f)"
    and un: "\<not> reachable G s t"
  shows "r = Inl NetworkXNoPath
         \<and> (\<exists>k st. steps G t (case heuristic of None \<Rightarrow> default_heuristic | Some f \<Rightarrow> f) w k
                      (init_state s) = Some st
                \<and> queue st = []
                \<and> never_popped G t (case heuristic of None \<Rightarrow> default_heuristic | Some f \<Rightarrow> f) w k
                      (init_state s))"
proof -
  let ?h = "case heuristic of None \<Rightarrow> default_heuristic | Some f \<Rightarrow> f"
  from assms(1) s t wf have l: "astar_loop G t ?h w (init_state s) = Some r"
    by (simp add: astar_path_def Let_def)
  from astar_loop_unreachable[OF l c s w h un path_inv_init cost_inv_init live_inv_init]
  obtain k st where r: "r = Inl NetworkXNoPath"
    and k: "steps G t ?h w k (init_state s) = Some st" "queue st = []"
    by blast
  from steps_never_popped[OF k(1)] k r show ?thesis by blast
qed

subsection \<open>Two searches for a target that cannot be reached\<close>

lemma island_closed: "closed_graph island_graph"
  unfolding closed_graph_def has_edge_def has_node_def island_graph_def
  by (auto split: if_splits)

lemma island_nonneg: "nonneg_costs island_graph dependent_weight"
  unfolding nonneg_costs_def has_edge_def prev_ok_def dependent_weight_def edge_attr_def
    get_edge_data_def island_graph_def
  by (auto split: if_splits option.splits)

lemma island_unreachable: "\<not> reachable island_graph ''S'' ''U''"
proof
  assume "reachable island_graph ''S'' ''U''"
  then have "(''S'', ''U'') \<in> {(u, v). has_edge island_graph u v}\<^sup>*"
    by (simp add: reachable_def)
  then have "''U'' \<in> {''S'', ''A'', ''T''}"
  proof (induction rule: rtrancl_induct)
    case base
    then show ?case by simp
  next
    case (step y z)
    then show ?case by (auto simp: has_edge_def island_graph_def split: if_splits)
  qed
  then show False by simp
qed

lemma test_graph_closed: "closed_graph test_graph"
  unfolding closed_graph_def has_edge_def has_node_def test_graph_def
  by (auto split: if_splits)

lemma test_graph_total: "total_costs test_graph dependent_weight"
  unfolding total_costs_def has_edge_def prev_ok_def dependent_weight_def edge_attr_def
    get_edge_data_def test_graph_def
  by (auto split: if_splits option.splits)

lemma test_graph_negative: "\<not> nonneg_costs test_graph dependent_weight"
proof
  assume "nonneg_costs test_graph dependent_weight"
  then have "has_edge test_graph ''S'' ''A1'' \<longrightarrow> prev_ok test_graph None ''S''
      \<longrightarrow> (\<exists>c. dependent_weight test_graph None (''S'', ''A1'') = Inr c \<and> 0 \<le> c)"
    unfolding nonneg_costs_def by blast
  then show False
    by (simp add: has_edge_def prev_ok_def dependent_weight_def edge_attr_def
        get_edge_data_def test_graph_def)
qed

lemma test_graph_unreachable: "\<not> reachable test_graph ''A2'' ''S''"
proof
  assume "reachable test_graph ''A2'' ''S''"
  then have "(''A2'', ''S'') \<in> {(u, v). has_edge test_graph u v}\<^sup>*"
    by (simp add: reachable_def)
  then have "''S'' \<in> {''A2'', ''B2'', ''C2'', ''T''}"
  proof (induction rule: rtrancl_induct)
    case base
    then show ?case by simp
  next
    case (step y z)
    then show ?case by (auto simp: has_edge_def test_graph_def split: if_splits)
  qed
  then show False by simp
qed

lemma test_graph_backwards:
  "astar_path test_graph ''A2'' ''S'' None (Callable dependent_weight)
     = Some (Inl NetworkXNoPath)"
  unfolding astar_path_def
  apply (simp add: has_node_def test_graph_def weight_function_def)
  apply (subst astar_loop.simps,
         simp add: search_defs default_heuristic_def dependent_weight_def test_graph_def)+
  done

text \<open>
  Claim C6, amended. When no path leads from the source to the target, \<open>astar_path\<close> never
  returns a node sequence. When moreover source and target are in the graph, every edge
  of the graph leads to a node of the graph, the weight resolves to a cost function that
  returns a number, of any sign, on every edge after every previous edge, and the
  heuristic returns a number on every node, then \<open>astar_path\<close>, if it returns at all,
  fails with NetworkXNoPath, and the main loop has reached, after finitely many
  iterations none of which popped the target, a state whose queue is empty; it does
  return when the costs are non-negative. Conversely, when neither callback raises
  NetworkXNoPath itself, \<open>astar_path\<close> fails with it only if no path leads from the source
  to the target. With a cycle of negative cost the search may run forever instead of
  failing, as on the negative cycle with an isolated target above.
\<close>

theorem astar_path_no_path:
  "(\<not> reachable G s t \<longrightarrow> (\<forall>path. astar_path G s t heuristic weight \<noteq> Some (Inr path)))
   \<and> (closed_graph G \<and> has_node G s \<and> has_node G t \<and> \<not> reachable G s t
        \<and> weight_function G weight = Inr w \<and> total_costs G w
        \<and> total_heuristic G t (case heuristic of None \<Rightarrow> default_heuristic | Some f \<Rightarrow> f)
      \<longrightarrow> (\<forall>r. astar_path G s t heuristic weight = Some r
             \<longrightarrow> r = Inl NetworkXNoPath
                 \<and> (\<exists>k st. steps G t (case heuristic of None \<Rightarrow> default_heuristic | Some f \<Rightarrow> f) w k
                              (init_state s) = Some st
                        \<and> queue st = []
                        \<and> never_popped G t (case heuristic of None \<Rightarrow> default_heuristic | Some f \<Rightarrow> f) w k
                              (init_state s)))
          \<and> (nonneg_costs G w
               \<longrightarrow> astar_path G s t heuristic weight = Some (Inl NetworkXNoPath)))
   \<and> (never_raises NetworkXNoPath G t heuristic weight
        \<and> astar_path G s t heuristic weight = Some (Inl NetworkXNoPath)
      \<longrightarrow> \<not> reachable G s t)"
proof (intro conjI impI allI)
  fix path
  assume un: "\<not> reachable G s t"
  show "astar_path G s t heuristic weight \<noteq> Some (Inr path)"
  proof
    assume "astar_path G s t heuristic weight = Some (Inr path)"
    from astar_path_valid[OF this] valid_walk_reachable[of G path] un show False by auto
  qed
next
  fix r
  assume "closed_graph G \<and> has_node G s \<and> has_node G t \<and> \<not> reachable G s t
        \<and> weight_function G weight = Inr w \<and> total_costs G w
        \<and> total_heuristic G t (case heuristic of None \<Rightarrow> default_heuristic | Some f \<Rightarrow> f)"
    and "astar_path G s t heuristic weight = Some r"
  with astar_path_unreachable[of G s t heuristic weight r w]
  show "r = Inl NetworkXNoPath"
    and "\<exists>k st. steps G t (case heuristic of None \<Rightarrow> default_heuristic | Some f \<Rightarrow> f) w k (init_state s) = Some st \<and> queue st = []
           \<and> never_popped G t (case heuristic of None \<Rightarrow> default_heuristic | Some f \<Rightarrow> f) w k (init_state s)"
    by simp_all
next
  assume "closed_graph G \<and> has_node G s \<and> has_node G t \<and> \<not> reachable G s t
        \<and> weight_function G weight = Inr w \<and> total_costs G w
        \<and> total_heuristic G t (case heuristic of None \<Rightarrow> default_heuristic | Some f \<Rightarrow> f)"
    and "nonneg_costs G w"
  with astar_path_total[of G s t weight w heuristic]
  show "astar_path G s t heuristic weight = Some (Inl NetworkXNoPath)" by simp
next
  assume "never_raises NetworkXNoPath G t heuristic weight
        \<and> astar_path G s t heuristic weight = Some (Inl NetworkXNoPath)"
  with astar_path_NoPath[of G s t heuristic weight] show "\<not> reachable G s t" by simp
qed

theorem astar_path_no_path_witness:
  "closed_graph island_graph \<and> has_node island_graph ''S'' \<and> has_node island_graph ''U''
   \<and> \<not> reachable island_graph ''S'' ''U'' \<and> nonneg_costs island_graph dependent_weight
   \<and> total_costs island_graph dependent_weight
   \<and> total_heuristic island_graph ''U'' default_heuristic
   \<and> never_raises NetworkXNoPath island_graph ''U'' None (Callable dependent_weight)
   \<and> astar_path island_graph ''S'' ''U'' None (Callable dependent_weight)
       = Some (Inl NetworkXNoPath)
   \<and> (\<exists>k st. steps island_graph ''U'' default_heuristic dependent_weight k (init_state ''S'')
                = Some st
          \<and> queue st = []
          \<and> never_popped island_graph ''U'' default_heuristic dependent_weight k
                (init_state ''S''))
   \<and> closed_graph test_graph \<and> has_node test_graph ''A2'' \<and> has_node test_graph ''S''
   \<and> \<not> reachable test_graph ''A2'' ''S'' \<and> \<not> nonneg_costs test_graph dependent_weight
   \<and> total_costs test_graph dependent_weight
   \<and> total_heuristic test_graph ''S'' default_heuristic
   \<and> astar_path test_graph ''A2'' ''S'' None (Callable dependent_weight)
       = Some (Inl NetworkXNoPath)
   \<and> (\<exists>k st. steps test_graph ''S'' default_heuristic dependent_weight k (init_state ''A2'')
                = Some st
          \<and> queue st = []
          \<and> never_popped test_graph ''S'' default_heuristic dependent_weight k
                (init_state ''A2''))"
proof -
  have 1: "has_node island_graph ''S''" "has_node island_graph ''U''"
    by (simp_all add: has_node_def island_graph_def)
  have 2: "total_heuristic G t (default_heuristic :: string heuristic_fn)" for G t
    by (simp add: total_heuristic_def default_heuristic_def)
  have 3: "weight_function G (Callable dependent_weight) = Inr dependent_weight"
    for G :: "string graph"
    by (simp add: weight_function_def)
  have 4: "never_raises NetworkXNoPath island_graph ''U'' None (Callable dependent_weight)"
    by (auto simp: never_raises_def dependent_weight_def split: option.splits sum.splits
             dest: edge_attr_error)
  have 5: "has_node test_graph ''A2''" "has_node test_graph ''S''"
    by (simp_all add: has_node_def test_graph_def)
  note it = nonneg_total[OF island_nonneg]
  note island = astar_path_no_path[of island_graph "''S''" "''U''" None
      "Callable dependent_weight" dependent_weight, unfolded option.case,
      THEN conjunct2, THEN conjunct1]
  note fixture = astar_path_no_path[of test_graph "''A2''" "''S''" None
      "Callable dependent_weight" dependent_weight, unfolded option.case,
      THEN conjunct2, THEN conjunct1]
  have "closed_graph island_graph \<and> has_node island_graph ''S'' \<and> has_node island_graph ''U''
        \<and> \<not> reachable island_graph ''S'' ''U''
        \<and> weight_function island_graph (Callable dependent_weight) = Inr dependent_weight
        \<and> total_costs island_graph dependent_weight
        \<and> total_heuristic island_graph ''U'' default_heuristic"
    using island_closed 1 island_unreachable 3 it 2 by blast
  from island[rule_format, OF this] island_nonneg
  have a: "astar_path island_graph ''S'' ''U'' None (Callable dependent_weight)
             = Some (Inl NetworkXNoPath)"
    and ar: "\<And>r. astar_path island_graph ''S'' ''U'' None (Callable dependent_weight) = Some r
          \<Longrightarrow> \<exists>k st. steps island_graph ''U'' default_heuristic dependent_weight k
                (init_state ''S'') = Some st
          \<and> queue st = []
          \<and> never_popped island_graph ''U'' default_heuristic dependent_weight k
                (init_state ''S'')"
    by blast+
  note b = ar[OF a]
  have "closed_graph test_graph \<and> has_node test_graph ''A2'' \<and> has_node test_graph ''S''
        \<and> \<not> reachable test_graph ''A2'' ''S''
        \<and> weight_function test_graph (Callable dependent_weight) = Inr dependent_weight
        \<and> total_costs test_graph dependent_weight
        \<and> total_heuristic test_graph ''S'' default_heuristic"
    using test_graph_closed 5 test_graph_unreachable 3 test_graph_total 2 by blast
  from fixture[rule_format, OF this] test_graph_backwards
  have c: "\<exists>k st. steps test_graph ''S'' default_heuristic dependent_weight k
                (init_state ''A2'') = Some st
          \<and> queue st = []
          \<and> never_popped test_graph ''S'' default_heuristic dependent_weight k
                (init_state ''A2'')"
    by blast
  show ?thesis
    using a b c island_closed island_nonneg it island_unreachable
      test_graph_closed test_graph_total test_graph_unreachable test_graph_negative
      test_graph_backwards 1 2 4 5
    by (intro conjI)
qed

end
